theory Spec2Isabelle
  imports Main
begin

section \<open>The source of characters\<close>

text \<open>
  A stream of \<^verbatim>\<open>stdio.h\<close>, as far as \<^verbatim>\<open>fgetc\<close> and \<^verbatim>\<open>ungetc\<close> see it: the bytes
  that are still to be read, a byte that was pushed back being the first of them.
\<close>

type_synonym FILE = "char list"

text \<open>
  The \<^verbatim>\<open>int\<close> that \<^verbatim>\<open>lex_getc\<close> returns and the lexer works on: a byte, or
  \<^verbatim>\<open>EOF\<close> (here \<open>None\<close>). The lexer compares such a value with \<^verbatim>\<open>EOF\<close> and with
  character constants below 128, hands it to \<^verbatim>\<open>isdigit\<close>, \<^verbatim>\<open>isalpha\<close> and
  \<^verbatim>\<open>isspace\<close>, and converts it back to a \<^verbatim>\<open>char\<close>. For a byte from 0x80 on the
  \<^verbatim>\<open>int\<close> is negative when it was read from a string and positive when it was read
  from a stream; neither is equal to one of those constants or belongs to one of the
  three classes, and both convert back to the same byte. The one byte for which the
  sign matters is 0xFF, which as a \<^verbatim>\<open>char\<close> has the value of \<^verbatim>\<open>EOF\<close>; see
  \<open>lex_getc\<close> and \<open>lex_ungetc\<close>.
\<close>

type_synonym cint = "char option"

abbreviation EOF :: cint where
  "EOF \<equiv> None"

abbreviation NUL :: char where
  "NUL \<equiv> CHR 0x00"

text \<open>
  \<^verbatim>\<open>fgetc\<close> returns the next byte as an \<^verbatim>\<open>unsigned char\<close> converted to \<^verbatim>\<open>int\<close>,
  or \<^verbatim>\<open>EOF\<close> at the end of the stream. \<^verbatim>\<open>ungetc\<close> pushes a byte back, and does
  nothing when its argument is \<^verbatim>\<open>EOF\<close>.
\<close>

definition fgetc :: "FILE \<Rightarrow> cint \<times> FILE" where
  "fgetc stream = (case stream of [] \<Rightarrow> (EOF, []) | b # bs \<Rightarrow> (Some b, bs))"

definition ungetc :: "cint \<Rightarrow> FILE \<Rightarrow> FILE" where
  "ungetc c stream = (case c of None \<Rightarrow> stream | Some b \<Rightarrow> b # stream)"

text \<open>
  The conversion of an \<^verbatim>\<open>int\<close> to \<^verbatim>\<open>char\<close> and back to \<^verbatim>\<open>int\<close>, where
  \<^verbatim>\<open>char\<close> is a signed type of eight bits (as it is on the x86 targets of the
  compilers that know the case ranges \<^verbatim>\<open>lex_token\<close> is written with): the byte 0xFF
  is the \<^verbatim>\<open>char\<close> of value -1, which is \<^verbatim>\<open>EOF\<close>.
\<close>

definition char_to_int :: "char \<Rightarrow> cint" where
  "char_to_int c = (if c = CHR 0xFF then EOF else Some c)"

definition int_to_char_to_int :: "cint \<Rightarrow> cint" where
  "int_to_char_to_int c = (case c of None \<Rightarrow> EOF | Some b \<Rightarrow> char_to_int b)"

text \<open>
  Modelled from the spec: the two backing kinds of \<^verbatim>\<open>lexer.h\<close>, which is not among
  the sources, under the names \<^verbatim>\<open>lexer.c\<close> and \<^verbatim>\<open>interpreter.c\<close> use, and the
  fields of \<^verbatim>\<open>lex_t\<close> that \<^verbatim>\<open>lexer.c\<close> reads and writes. The field \<open>string\<close> is the
  memory that starts at the pointer handed to \<^verbatim>\<open>lex_init\<close>: the characters of the
  text, its terminating zero byte, and whatever bytes of the same object follow it.
  Reading at an index outside of that memory is not defined in C; the model returns
  \<open>OutOfBounds\<close>.
\<close>

datatype backing = FILE_BACKED | STRING_BACKED

record lex_t =
  type :: backing
  fd :: FILE
  position :: nat
  string :: "char list"

datatype lex_fault = OutOfBounds

text \<open>
  \<^verbatim>\<open>lex_init\<close>. For a file the C function is handed the name of the file and opens
  it for reading; the model is handed the bytes of the file. The fields that the C
  function leaves unset are never read; here they are zero and empty.
\<close>

definition lex_init :: "char list \<Rightarrow> backing \<Rightarrow> lex_t" where
  "lex_init data ty =
     (if ty = FILE_BACKED then \<lparr>type = ty, fd = data, position = 0, string = []\<rparr>
      else \<lparr>type = ty, fd = [], position = 0, string = data\<rparr>)"

text \<open>
  \<^verbatim>\<open>lex_getc\<close>. For a file: \<^verbatim>\<open>return fgetc(ctx->fd);\<close> For a string:
  \<^verbatim>\<open>const char c = ctx->string[ctx->position++]; return c ? (int) c : EOF;\<close>
  The cursor moves on also when the byte read is the terminator, and the byte 0xFF is
  returned as \<^verbatim>\<open>(int) c = -1\<close>, that is as \<^verbatim>\<open>EOF\<close>.
\<close>

definition lex_getc :: "lex_t \<Rightarrow> lex_fault + (cint \<times> lex_t)" where
  "lex_getc ctx =
     (if lex_t.type ctx = FILE_BACKED
      then (case fgetc (fd ctx) of (c, stream) \<Rightarrow> Inr (c, ctx\<lparr>fd := stream\<rparr>))
      else if position ctx < length (string ctx)
      then (let c = string ctx ! position ctx;
                ctx' = ctx\<lparr>position := position ctx + 1\<rparr>
            in Inr (if c \<noteq> NUL then char_to_int c else EOF, ctx'))
      else Inl OutOfBounds)"

text \<open>
  \<^verbatim>\<open>lex_ungetc(lex_t *ctx, char c)\<close>. The callers pass the \<^verbatim>\<open>int\<close> they have read,
  which is converted to the \<^verbatim>\<open>char\<close> parameter. For a file:
  \<^verbatim>\<open>ungetc(c, ctx->fd);\<close> For a string: \<^verbatim>\<open>ctx->position--;\<close>
\<close>

definition lex_ungetc :: "lex_t \<Rightarrow> cint \<Rightarrow> lex_t" where
  "lex_ungetc ctx c =
     (if lex_t.type ctx = FILE_BACKED
      then ctx\<lparr>fd := ungetc (int_to_char_to_int c) (fd ctx)\<rparr>
      else ctx\<lparr>position := position ctx - 1\<rparr>)"

subsection \<open>Character classes of \<^verbatim>\<open>ctype.h\<close> in the C locale\<close>

definition isdigit :: "char \<Rightarrow> bool" where
  "isdigit c = (48 \<le> (of_char c :: nat) \<and> (of_char c :: nat) \<le> 57)"

definition isalpha :: "char \<Rightarrow> bool" where
  "isalpha c = ((65 \<le> (of_char c :: nat) \<and> (of_char c :: nat) \<le> 90) \<or>
                (97 \<le> (of_char c :: nat) \<and> (of_char c :: nat) \<le> 122))"

definition isspace :: "char \<Rightarrow> bool" where
  "isspace c = ((of_char c :: nat) = 32 \<or> (9 \<le> (of_char c :: nat) \<and> (of_char c :: nat) \<le> 13))"

section \<open>Tokens\<close>

text \<open>
  Modelled from the spec: the token kind enumeration of \<^verbatim>\<open>token.h\<close>, which is not
  among the sources. The constructor names are the ones \<^verbatim>\<open>lexer.c\<close> and the parser
  use; the spec's section 6 lists the same twenty-eight kinds.
\<close>

datatype token_type =
    TOK_SPACE | TOK_EOF | TOK_NUMBER | TOK_IDENT
  | TOK_PLUS | TOK_MINUS | TOK_DIV | TOK_MULTIPLY | TOK_MOD
  | TOK_QMARK | TOK_COLON
  | TOK_NEQUALITY | TOK_EQUALITY
  | TOK_BWAND | TOK_LAND | TOK_BWOR | TOK_LOR
  | TOK_LSHIFT | TOK_LT | TOK_LTE | TOK_RSHIFT | TOK_GT | TOK_GTE
  | TOK_BWXOR | TOK_BWNEG
  | TOK_LPAREN | TOK_RPAREN | TOK_SEMICOLON

text \<open>
  \<^verbatim>\<open>token_t\<close>: the fields the \<^verbatim>\<open>lex_mk*\<close> functions write. The literal is the
  content of the C string (the bytes before its terminator); it is meaningful only when
  \<open>is_literal\<close> holds and is kept empty otherwise.
\<close>

record token_t =
  type :: token_type
  is_literal :: bool
  literal :: string

text \<open>
  The bytes ahead of the cursor: what is left of the stream, or the memory from the
  cursor on.
\<close>

definition unread :: "lex_t \<Rightarrow> char list" where
  "unread ctx =
     (if lex_t.type ctx = FILE_BACKED then fd ctx
      else drop (lex_t.position ctx) (string ctx))"

section \<open>The lexer\<close>

definition lex_mkspecial :: "token_type \<Rightarrow> token_t" where
  "lex_mkspecial ty = \<lparr>type = ty, is_literal = False, literal = []\<rparr>"

definition lex_mkkw :: "token_type \<Rightarrow> token_t" where
  "lex_mkkw ty = \<lparr>type = ty, is_literal = False, literal = []\<rparr>"

definition lex_mknumber :: "token_type \<Rightarrow> string \<Rightarrow> token_t" where
  "lex_mknumber ty number = \<lparr>type = ty, is_literal = True, literal = number\<rparr>"

definition lex_mkident :: "token_type \<Rightarrow> string \<Rightarrow> token_t" where
  "lex_mkident ty identifier = \<lparr>type = ty, is_literal = True, literal = identifier\<rparr>"

text \<open>
  The loop of \<^verbatim>\<open>lex_chnumber\<close>: read until \<^verbatim>\<open>EOF\<close> (which is not pushed back) or
  until a character that is no digit (which is).
\<close>

function lex_chnumber_loop :: "lex_t \<Rightarrow> string \<Rightarrow> lex_fault + (string \<times> lex_t)" where
  "lex_chnumber_loop ctx number =
     (case lex_getc ctx of
        Inl e \<Rightarrow> Inl e
      | Inr (None, ctx') \<Rightarrow> Inr (number, ctx')
      | Inr (Some c, ctx') \<Rightarrow>
          if \<not> isdigit c then Inr (number, lex_ungetc ctx' (Some c))
          else lex_chnumber_loop ctx' (number @ [c]))"
  by pat_completeness auto
termination
  by (relation "measure (\<lambda>(ctx, number). length (unread ctx))")
     (auto simp: lex_getc_def fgetc_def unread_def char_to_int_def Let_def
        split: if_splits list.splits)

declare lex_chnumber_loop.simps [simp del]

definition lex_chnumber :: "lex_t \<Rightarrow> char \<Rightarrow> lex_fault + (token_t option \<times> lex_t)" where
  "lex_chnumber ctx val =
     (case lex_chnumber_loop ctx [val] of
        Inl e \<Rightarrow> Inl e
      | Inr (number, ctx') \<Rightarrow> Inr (Some (lex_mknumber TOK_NUMBER number), ctx'))"

text \<open>
  The loop of \<^verbatim>\<open>lex_chident\<close>; its test \<^verbatim>\<open>!isalpha(c) || c == '_'\<close> ends the
  identifier at anything that is not a letter.
\<close>

function lex_chident_loop :: "lex_t \<Rightarrow> string \<Rightarrow> lex_fault + (string \<times> lex_t)" where
  "lex_chident_loop ctx identifier =
     (case lex_getc ctx of
        Inl e \<Rightarrow> Inl e
      | Inr (None, ctx') \<Rightarrow> Inr (identifier, ctx')
      | Inr (Some c, ctx') \<Rightarrow>
          if \<not> isalpha c \<or> c = CHR ''_'' then Inr (identifier, lex_ungetc ctx' (Some c))
          else lex_chident_loop ctx' (identifier @ [c]))"
  by pat_completeness auto
termination
  by (relation "measure (\<lambda>(ctx, identifier). length (unread ctx))")
     (auto simp: lex_getc_def fgetc_def unread_def char_to_int_def Let_def
        split: if_splits list.splits)

declare lex_chident_loop.simps [simp del]

definition lex_chident :: "lex_t \<Rightarrow> char \<Rightarrow> lex_fault + (token_t option \<times> lex_t)" where
  "lex_chident ctx val =
     (case lex_chident_loop ctx [val] of
        Inl e \<Rightarrow> Inl e
      | Inr (identifier, ctx') \<Rightarrow> Inr (Some (lex_mkident TOK_IDENT identifier), ctx'))"

text \<open>
  The \<^verbatim>\<open>lex_ch*\<close> functions for the two-character operators. A token pointer is an
  option: \<open>None\<close> is the \<^verbatim>\<open>NULL\<close> that \<^verbatim>\<open>lex_chnot\<close> returns.
\<close>

definition lex_chnot :: "lex_t \<Rightarrow> lex_fault + (token_t option \<times> lex_t)" where
  "lex_chnot ctx =
     (case lex_getc ctx of
        Inl e \<Rightarrow> Inl e
      | Inr (c, ctx') \<Rightarrow>
          if c = Some (CHR ''='') then Inr (Some (lex_mkkw TOK_NEQUALITY), ctx')
          else Inr (None, ctx'))"

definition lex_cheq :: "lex_t \<Rightarrow> lex_fault + (token_t option \<times> lex_t)" where
  "lex_cheq ctx =
     (case lex_getc ctx of
        Inl e \<Rightarrow> Inl e
      | Inr (c, ctx') \<Rightarrow>
          if c = Some (CHR ''='') then Inr (Some (lex_mkkw TOK_EQUALITY), ctx')
          else Inr (Some (lex_mkkw TOK_BWOR), lex_ungetc ctx' c))"

definition lex_chor :: "lex_t \<Rightarrow> lex_fault + (token_t option \<times> lex_t)" where
  "lex_chor ctx =
     (case lex_getc ctx of
        Inl e \<Rightarrow> Inl e
      | Inr (c, ctx') \<Rightarrow>
          if c = Some (CHR ''|'') then Inr (Some (lex_mkkw TOK_LOR), ctx')
          else Inr (Some (lex_mkkw TOK_BWOR), lex_ungetc ctx' c))"

definition lex_chand :: "lex_t \<Rightarrow> lex_fault + (token_t option \<times> lex_t)" where
  "lex_chand ctx =
     (case lex_getc ctx of
        Inl e \<Rightarrow> Inl e
      | Inr (c, ctx') \<Rightarrow>
          if c = Some (CHR ''&'') then Inr (Some (lex_mkkw TOK_LAND), ctx')
          else Inr (Some (lex_mkkw TOK_BWAND), lex_ungetc ctx' c))"

definition lex_chlbr :: "lex_t \<Rightarrow> lex_fault + (token_t option \<times> lex_t)" where
  "lex_chlbr ctx =
     (case lex_getc ctx of
        Inl e \<Rightarrow> Inl e
      | Inr (c, ctx') \<Rightarrow>
          if c = Some (CHR ''<'') then Inr (Some (lex_mkkw TOK_LSHIFT), ctx')
          else if c = Some (CHR ''='') then Inr (Some (lex_mkkw TOK_LTE), ctx')
          else Inr (Some (lex_mkkw TOK_LT), lex_ungetc ctx' c))"

definition lex_chrbr :: "lex_t \<Rightarrow> lex_fault + (token_t option \<times> lex_t)" where
  "lex_chrbr ctx =
     (case lex_getc ctx of
        Inl e \<Rightarrow> Inl e
      | Inr (c, ctx') \<Rightarrow>
          if c = Some (CHR ''>'') then Inr (Some (lex_mkkw TOK_RSHIFT), ctx')
          else if c = Some (CHR ''='') then Inr (Some (lex_mkkw TOK_GTE), ctx')
          else Inr (Some (lex_mkkw TOK_GT), lex_ungetc ctx' c))"

text \<open>
  \<^verbatim>\<open>lex_skip_space\<close> returns whether one whitespace character was consumed. At
  \<^verbatim>\<open>EOF\<close> it returns 0 without pushing anything back.
\<close>

definition lex_skip_space :: "lex_t \<Rightarrow> lex_fault + (bool \<times> lex_t)" where
  "lex_skip_space ctx =
     (case lex_getc ctx of
        Inl e \<Rightarrow> Inl e
      | Inr (None, ctx') \<Rightarrow> Inr (False, ctx')
      | Inr (Some c, ctx') \<Rightarrow>
          if isspace c then Inr (True, ctx')
          else Inr (False, lex_ungetc ctx' (Some c)))"

text \<open>
  The \<^verbatim>\<open>switch\<close> of \<^verbatim>\<open>lex_token\<close> on the character read, in the order of its cases;
  the statement after the switch returns \<^verbatim>\<open>TOK_EOF\<close> for every other character.
\<close>

definition lex_switch :: "cint \<Rightarrow> lex_t \<Rightarrow> lex_fault + (token_t option \<times> lex_t)" where
  "lex_switch c ctx =
     (case c of
        None \<Rightarrow> Inr (Some (lex_mkspecial TOK_EOF), ctx)
      | Some ch \<Rightarrow>
          if ch = CHR ''+'' then Inr (Some (lex_mkkw TOK_PLUS), ctx)
          else if ch = CHR ''-'' then Inr (Some (lex_mkkw TOK_MINUS), ctx)
          else if ch = CHR ''/'' then Inr (Some (lex_mkkw TOK_DIV), ctx)
          else if ch = CHR ''*'' then Inr (Some (lex_mkkw TOK_MULTIPLY), ctx)
          else if ch = CHR ''%'' then Inr (Some (lex_mkkw TOK_MOD), ctx)
          else if ch = CHR ''?'' then Inr (Some (lex_mkkw TOK_QMARK), ctx)
          else if ch = CHR '':'' then Inr (Some (lex_mkkw TOK_COLON), ctx)
          else if ch = CHR ''!'' then lex_chnot ctx
          else if ch = CHR ''='' then lex_cheq ctx
          else if ch = CHR ''&'' then lex_chand ctx
          else if ch = CHR ''|'' then lex_chor ctx
          else if ch = CHR ''<'' then lex_chlbr ctx
          else if ch = CHR ''>'' then lex_chrbr ctx
          else if ch = CHR ''^'' then Inr (Some (lex_mkkw TOK_BWXOR), ctx)
          else if ch = CHR ''~'' then Inr (Some (lex_mkkw TOK_BWNEG), ctx)
          else if ch = CHR ''('' then Inr (Some (lex_mkkw TOK_LPAREN), ctx)
          else if ch = CHR '')'' then Inr (Some (lex_mkkw TOK_RPAREN), ctx)
          else if ch = CHR '';'' then Inr (Some (lex_mkkw TOK_SEMICOLON), ctx)
          else if isdigit ch then lex_chnumber ctx ch
          else if isalpha ch \<or> ch = CHR ''_'' then lex_chident ctx ch
          else Inr (Some (lex_mkspecial TOK_EOF), ctx))"

definition lex_token :: "lex_t \<Rightarrow> lex_fault + (token_t option \<times> lex_t)" where
  "lex_token ctx =
     (case lex_skip_space ctx of
        Inl e \<Rightarrow> Inl e
      | Inr (True, ctx1) \<Rightarrow> Inr (Some (lex_mkspecial TOK_SPACE), ctx1)
      | Inr (False, ctx1) \<Rightarrow>
          (case lex_getc ctx1 of
             Inl e \<Rightarrow> Inl e
           | Inr (c, ctx2) \<Rightarrow> lex_switch c ctx2))"


section \<open>The abstract syntax tree\<close>

text \<open>
  \<^verbatim>\<open>node_t\<close>: the three shapes of the union in \<^verbatim>\<open>parser.h\<close>. A leaf holds the
  \<^verbatim>\<open>long value\<close>; the other two hold the \<^verbatim>\<open>id\<close> (a token kind) and the children.
\<close>

datatype node_t =
    Leaf int
  | Unary token_type node_t
  | Binary token_type node_t node_t

definition ast_binary_operator :: "token_type \<Rightarrow> node_t \<Rightarrow> node_t \<Rightarrow> node_t" where
  "ast_binary_operator ident left right = Binary ident left right"

definition ast_unary_operator :: "token_type \<Rightarrow> node_t \<Rightarrow> node_t" where
  "ast_unary_operator ident operand = Unary ident operand"

definition ast_number :: "int \<Rightarrow> node_t" where
  "ast_number v = Leaf v"

text \<open>The fields \<^verbatim>\<open>id\<close> and \<^verbatim>\<open>is_term\<close> as the three constructors set them.\<close>

fun node_id :: "node_t \<Rightarrow> token_type" where
  "node_id (Leaf v) = TOK_NUMBER"
| "node_id (Unary ident operand) = ident"
| "node_id (Binary ident left right) = ident"

fun is_term :: "node_t \<Rightarrow> bool" where
  "is_term (Leaf v) = True"
| "is_term (Unary ident operand) = False"
| "is_term (Binary ident left right) = False"

section \<open>The parse context\<close>

text \<open>
  \<^verbatim>\<open>rdp_t\<close>: the token array, the cursor, and the length given to \<^verbatim>\<open>rdp_init\<close>,
  which no function of the parser reads. The token array has as many elements as the
  list; \<^verbatim>\<open>ctx->tokens[ctx->position]\<close> outside of it is \<open>TokenOutOfBounds\<close>.
\<close>

record rdp_t =
  tokens :: "token_t list"
  position :: nat
  length_rdp :: nat

datatype rdp_error = OutOfFuel | UnexpectedToken | TokenOutOfBounds

definition rdp_init :: "token_t list \<Rightarrow> nat \<Rightarrow> rdp_t" where
  "rdp_init toks len = \<lparr>tokens = toks, position = 0, length_rdp = len\<rparr>"

definition rdp_peek :: "rdp_t \<Rightarrow> rdp_error + token_t" where
  "rdp_peek ctx =
     (if position ctx < length (tokens ctx) then Inr (tokens ctx ! position ctx)
      else Inl TokenOutOfBounds)"

definition rdp_consume :: "rdp_t \<Rightarrow> rdp_t" where
  "rdp_consume ctx = ctx\<lparr>position := position ctx + 1\<rparr>"

definition rdp_pop :: "rdp_t \<Rightarrow> rdp_error + (token_t \<times> rdp_t)" where
  "rdp_pop ctx =
     (case rdp_peek ctx of
        Inl e \<Rightarrow> Inl e
      | Inr t \<Rightarrow> Inr (t, rdp_consume ctx))"

function rdp_consume_blanks :: "rdp_t \<Rightarrow> rdp_error + rdp_t" where
  "rdp_consume_blanks ctx =
     (if position ctx < length (tokens ctx)
      then (if type (tokens ctx ! position ctx) = TOK_SPACE
            then rdp_consume_blanks (ctx\<lparr>position := position ctx + 1\<rparr>)
            else Inr ctx)
      else Inl TokenOutOfBounds)"
  by pat_completeness auto
termination
  by (relation "measure (\<lambda>ctx. length (tokens ctx) - position ctx)") auto

declare rdp_consume_blanks.simps [simp del]

text \<open>
  Modelled from the spec: \<^verbatim>\<open>xerror\<close>, declared in \<^verbatim>\<open>compiler.h\<close>, which is not
  among the sources. By the spec's section 7 a failure of the parser aborts the whole
  parse attempt with \<open>UnexpectedToken\<close>; no caller continues after it.
\<close>

definition xerror :: "string \<Rightarrow> rdp_error + 'a" where
  "xerror msg = Inl UnexpectedToken"

subsection \<open>\<^verbatim>\<open>strtol\<close> in base 10\<close>

text \<open>
  The C library's \<^verbatim>\<open>strtol(s, NULL, 10)\<close> with a 64-bit \<^verbatim>\<open>long\<close>: leading
  whitespace, an optional sign, the longest run of digits (none gives 0), and a result
  outside of the range of \<^verbatim>\<open>long\<close> replaced by the nearest bound.
\<close>

definition LONG_MAX :: int where
  "LONG_MAX = 9223372036854775807"

definition LONG_MIN :: int where
  "LONG_MIN = - 9223372036854775808"

fun strtol_digits :: "string \<Rightarrow> int \<Rightarrow> int" where
  "strtol_digits [] acc = acc"
| "strtol_digits (c # cs) acc =
     (if isdigit c then strtol_digits cs (10 * acc + (int (of_char c) - 48)) else acc)"

definition strtol :: "string \<Rightarrow> int" where
  "strtol s =
     (let s1 = dropWhile isspace s;
          neg = (case s1 of [] \<Rightarrow> False | c # cs \<Rightarrow> c = CHR ''-'');
          s2 = (case s1 of [] \<Rightarrow> [] | c # cs \<Rightarrow> if c = CHR ''-'' \<or> c = CHR ''+'' then cs else s1);
          v = strtol_digits s2 0;
          r = (if neg then - v else v)
      in max LONG_MIN (min LONG_MAX r))"

section \<open>The recursive descent parser\<close>

definition rdp_const :: "rdp_t \<Rightarrow> rdp_error + (node_t \<times> rdp_t)" where
  "rdp_const ctx =
     (case rdp_consume_blanks ctx of
        Inl e \<Rightarrow> Inl e
      | Inr c1 \<Rightarrow>
          (case rdp_pop c1 of
             Inl e \<Rightarrow> Inl e
           | Inr (t, c2) \<Rightarrow>
               if type t \<noteq> TOK_NUMBER then xerror ''Invalid symbol encountered''
               else Inr (ast_number (strtol (literal t)), c2)))"

text \<open>
  The grammar rules call each other recursively, and each \<^verbatim>\<open>while (1)\<close> loop runs
  until a token that is no operator of its level. The first argument bounds the number
  of nested calls and loop rounds: every call and every round takes one unit, and
  \<open>OutOfFuel\<close> is the result when none is left. \<open>rdp_fuel\<close> below is a bound that
  is never reached. A \<open>_loop\<close> function is the loop of the rule of the same name, with
  the variable \<^verbatim>\<open>left\<close> as its argument.
\<close>

function (sequential) rdp_primary_exp :: "nat \<Rightarrow> rdp_t \<Rightarrow> rdp_error + (node_t \<times> rdp_t)"
  and rdp_unary_exp :: "nat \<Rightarrow> rdp_t \<Rightarrow> rdp_error + (node_t \<times> rdp_t)"
  and rdp_mult_exp :: "nat \<Rightarrow> rdp_t \<Rightarrow> rdp_error + (node_t \<times> rdp_t)"
  and rdp_mult_exp_loop :: "nat \<Rightarrow> node_t \<Rightarrow> rdp_t \<Rightarrow> rdp_error + (node_t \<times> rdp_t)"
  and rdp_additive_exp :: "nat \<Rightarrow> rdp_t \<Rightarrow> rdp_error + (node_t \<times> rdp_t)"
  and rdp_additive_exp_loop :: "nat \<Rightarrow> node_t \<Rightarrow> rdp_t \<Rightarrow> rdp_error + (node_t \<times> rdp_t)"
  and rdp_and_exp :: "nat \<Rightarrow> rdp_t \<Rightarrow> rdp_error + (node_t \<times> rdp_t)"
  and rdp_and_exp_loop :: "nat \<Rightarrow> node_t \<Rightarrow> rdp_t \<Rightarrow> rdp_error + (node_t \<times> rdp_t)"
  and rdp_xor_exp :: "nat \<Rightarrow> rdp_t \<Rightarrow> rdp_error + (node_t \<times> rdp_t)"
  and rdp_xor_exp_loop :: "nat \<Rightarrow> node_t \<Rightarrow> rdp_t \<Rightarrow> rdp_error + (node_t \<times> rdp_t)"
  and rdp_ior_exp :: "nat \<Rightarrow> rdp_t \<Rightarrow> rdp_error + (node_t \<times> rdp_t)"
  and rdp_ior_exp_loop :: "nat \<Rightarrow> node_t \<Rightarrow> rdp_t \<Rightarrow> rdp_error + (node_t \<times> rdp_t)"
  and rdp_expression :: "nat \<Rightarrow> rdp_t \<Rightarrow> rdp_error + (node_t \<times> rdp_t)"
where
  "rdp_primary_exp 0 ctx = Inl OutOfFuel"
  | "rdp_primary_exp (Suc n) ctx =
       (case rdp_consume_blanks ctx of
          Inl e \<Rightarrow> Inl e
        | Inr c1 \<Rightarrow>
            (case rdp_peek c1 of
               Inl e \<Rightarrow> Inl e
             | Inr left \<Rightarrow>
                 if type left = TOK_LPAREN then
                   (case rdp_expression n (rdp_consume c1) of
                      Inl e \<Rightarrow> Inl e
                    | Inr (expr, c2) \<Rightarrow>
                        (case rdp_consume_blanks c2 of
                           Inl e \<Rightarrow> Inl e
                         | Inr c3 \<Rightarrow>
                             (case rdp_pop c3 of
                                Inl e \<Rightarrow> Inl e
                              | Inr (right, c4) \<Rightarrow>
                                  if type right = TOK_RPAREN then Inr (expr, c4)
                                  else xerror ''Invalid symbol encountered'')))
                 else rdp_const c1))"
  | "rdp_unary_exp 0 ctx = Inl OutOfFuel"
  | "rdp_unary_exp (Suc n) ctx = rdp_primary_exp n ctx"
  | "rdp_mult_exp 0 ctx = Inl OutOfFuel"
  | "rdp_mult_exp (Suc n) ctx =
       (case rdp_unary_exp n ctx of
          Inl e \<Rightarrow> Inl e
        | Inr (left, c1) \<Rightarrow> rdp_mult_exp_loop n left c1)"
  | "rdp_mult_exp_loop 0 left ctx = Inl OutOfFuel"
  | "rdp_mult_exp_loop (Suc n) left ctx =
       (case rdp_consume_blanks ctx of
          Inl e \<Rightarrow> Inl e
        | Inr c1 \<Rightarrow>
            (case rdp_peek c1 of
               Inl e \<Rightarrow> Inl e
             | Inr op \<Rightarrow>
                 if type op = TOK_MULTIPLY \<or> type op = TOK_DIV \<or> type op = TOK_MOD then
                   (case rdp_unary_exp n (rdp_consume c1) of
                      Inl e \<Rightarrow> Inl e
                    | Inr (right, c2) \<Rightarrow>
                        rdp_mult_exp_loop n (ast_binary_operator (type op) left right) c2)
                 else Inr (left, c1)))"
  | "rdp_additive_exp 0 ctx = Inl OutOfFuel"
  | "rdp_additive_exp (Suc n) ctx =
       (case rdp_mult_exp n ctx of
          Inl e \<Rightarrow> Inl e
        | Inr (left, c1) \<Rightarrow> rdp_additive_exp_loop n left c1)"
  | "rdp_additive_exp_loop 0 left ctx = Inl OutOfFuel"
  | "rdp_additive_exp_loop (Suc n) left ctx =
       (case rdp_consume_blanks ctx of
          Inl e \<Rightarrow> Inl e
        | Inr c1 \<Rightarrow>
            (case rdp_peek c1 of
               Inl e \<Rightarrow> Inl e
             | Inr op \<Rightarrow>
                 if type op = TOK_PLUS \<or> type op = TOK_MINUS then
                   (case rdp_mult_exp n (rdp_consume c1) of
                      Inl e \<Rightarrow> Inl e
                    | Inr (right, c2) \<Rightarrow>
                        rdp_additive_exp_loop n (ast_binary_operator (type op) left right) c2)
                 else Inr (left, c1)))"
  | "rdp_and_exp 0 ctx = Inl OutOfFuel"
  | "rdp_and_exp (Suc n) ctx =
       (case rdp_additive_exp n ctx of
          Inl e \<Rightarrow> Inl e
        | Inr (left, c1) \<Rightarrow> rdp_and_exp_loop n left c1)"
  | "rdp_and_exp_loop 0 left ctx = Inl OutOfFuel"
  | "rdp_and_exp_loop (Suc n) left ctx =
       (case rdp_consume_blanks ctx of
          Inl e \<Rightarrow> Inl e
        | Inr c1 \<Rightarrow>
            (case rdp_peek c1 of
               Inl e \<Rightarrow> Inl e
             | Inr op \<Rightarrow>
                 if type op = TOK_BWAND then
                   (case rdp_additive_exp n (rdp_consume c1) of
                      Inl e \<Rightarrow> Inl e
                    | Inr (right, c2) \<Rightarrow>
                        rdp_and_exp_loop n (ast_binary_operator (type op) left right) c2)
                 else Inr (left, c1)))"
  | "rdp_xor_exp 0 ctx = Inl OutOfFuel"
  | "rdp_xor_exp (Suc n) ctx =
       (case rdp_and_exp n ctx of
          Inl e \<Rightarrow> Inl e
        | Inr (left, c1) \<Rightarrow> rdp_xor_exp_loop n left c1)"
  | "rdp_xor_exp_loop 0 left ctx = Inl OutOfFuel"
  | "rdp_xor_exp_loop (Suc n) left ctx =
       (case rdp_consume_blanks ctx of
          Inl e \<Rightarrow> Inl e
        | Inr c1 \<Rightarrow>
            (case rdp_peek c1 of
               Inl e \<Rightarrow> Inl e
             | Inr op \<Rightarrow>
                 if type op = TOK_BWXOR then
                   (case rdp_and_exp n (rdp_consume c1) of
                      Inl e \<Rightarrow> Inl e
                    | Inr (right, c2) \<Rightarrow>
                        rdp_xor_exp_loop n (ast_binary_operator (type op) left right) c2)
                 else Inr (left, c1)))"
  | "rdp_ior_exp 0 ctx = Inl OutOfFuel"
  | "rdp_ior_exp (Suc n) ctx =
       (case rdp_xor_exp n ctx of
          Inl e \<Rightarrow> Inl e
        | Inr (left, c1) \<Rightarrow> rdp_ior_exp_loop n left c1)"
  | "rdp_ior_exp_loop 0 left ctx = Inl OutOfFuel"
  | "rdp_ior_exp_loop (Suc n) left ctx =
       (case rdp_consume_blanks ctx of
          Inl e \<Rightarrow> Inl e
        | Inr c1 \<Rightarrow>
            (case rdp_peek c1 of
               Inl e \<Rightarrow> Inl e
             | Inr op \<Rightarrow>
                 if type op = TOK_BWOR then
                   (case rdp_xor_exp n (rdp_consume c1) of
                      Inl e \<Rightarrow> Inl e
                    | Inr (right, c2) \<Rightarrow>
                        rdp_ior_exp_loop n (ast_binary_operator (type op) left right) c2)
                 else Inr (left, c1)))"
  | "rdp_expression 0 ctx = Inl OutOfFuel"
  | "rdp_expression (Suc n) ctx = rdp_ior_exp n ctx"
  by pat_completeness auto
termination
  by (relation "measure (case_sum
        (case_sum (case_sum fst (case_sum fst fst)) (case_sum fst (case_sum fst fst)))
        (case_sum (case_sum fst (case_sum fst fst))
                  (case_sum (case_sum fst fst) (case_sum fst fst))))") simp_all

text \<open>
  Each round of a loop and each pair of parentheses consumes a token, and between two
  consumed tokens at most eight rules are entered.
\<close>

definition rdp_fuel :: "rdp_t \<Rightarrow> nat" where
  "rdp_fuel ctx = 8 * (length (tokens ctx) - position ctx) + 8"

definition rdp_generate_ast :: "rdp_t \<Rightarrow> rdp_error + (node_t \<times> rdp_t)" where
  "rdp_generate_ast ctx = rdp_expression (rdp_fuel ctx) ctx"



section \<open>The driver loop of the interpreter\<close>

subsection \<open>Every call of the lexer moves forward in the source\<close>

text \<open>\<open>forward k ctx\<close>: the source \<open>ctx\<close> after \<open>k\<close> more bytes have been read.\<close>

definition forward :: "nat \<Rightarrow> lex_t \<Rightarrow> lex_t" where
  "forward k ctx =
     (if lex_t.type ctx = FILE_BACKED then ctx\<lparr>fd := drop k (fd ctx)\<rparr>
      else ctx\<lparr>lex_t.position := lex_t.position ctx + k\<rparr>)"

definition lex_adv :: "lex_t \<Rightarrow> lex_t \<Rightarrow> bool" where
  "lex_adv ctx ctx' \<longleftrightarrow> (\<exists>k. k \<le> length (unread ctx) \<and> ctx' = forward k ctx)"

lemma fd_update_same: "fd ctx = stream \<Longrightarrow> ctx\<lparr>fd := stream\<rparr> = ctx"
  by (cases ctx) simp

lemma forward_0: "forward 0 ctx = ctx"
  by (simp add: forward_def)

lemma type_forward: "lex_t.type (forward k ctx) = lex_t.type ctx"
  by (simp add: forward_def)

lemma forward_forward: "forward j (forward k ctx) = forward (k + j) ctx"
  by (simp add: forward_def add.commute add.left_commute)

lemma unread_forward: "unread (forward k ctx) = drop k (unread ctx)"
  by (simp add: forward_def unread_def add.commute)

lemma lex_adv_refl: "lex_adv ctx ctx"
  unfolding lex_adv_def by (intro exI [of _ 0]) (simp add: forward_0)

lemma lex_adv_forward: "k \<le> length (unread ctx) \<Longrightarrow> lex_adv ctx (forward k ctx)"
  unfolding lex_adv_def by blast

lemma lex_adv_trans:
  assumes "lex_adv a b" and "lex_adv b c"
  shows "lex_adv a c"
proof -
  from assms(1) obtain k where k: "k \<le> length (unread a)" "b = forward k a"
    unfolding lex_adv_def by blast
  from assms(2) obtain j where j: "j \<le> length (unread b)" "c = forward j b"
    unfolding lex_adv_def by blast
  from k j have "k + j \<le> length (unread a)" by (simp add: unread_forward)
  moreover from k j have "c = forward (k + j) a" by (simp add: forward_forward)
  ultimately show ?thesis unfolding lex_adv_def by blast
qed

lemma lex_adv_unread:
  "lex_adv ctx ctx' \<Longrightarrow>
     \<exists>k. k \<le> length (unread ctx) \<and> unread ctx' = drop k (unread ctx) \<and>
         lex_t.type ctx' = lex_t.type ctx"
  unfolding lex_adv_def by (auto simp: unread_forward type_forward)

text \<open>
  One read: at the end of a stream nothing moves and the result is \<^verbatim>\<open>EOF\<close>;
  otherwise the first of the bytes ahead is read.
\<close>

lemma lex_getc_cases:
  assumes "lex_getc ctx = Inr (c, ctx')"
  shows "(lex_t.type ctx = FILE_BACKED \<and> unread ctx = [] \<and> c = EOF \<and> ctx' = ctx)
       \<or> (\<exists>b bs. unread ctx = b # bs \<and> ctx' = forward 1 ctx \<and>
             c = (if lex_t.type ctx = FILE_BACKED then Some b
                  else if b = NUL \<or> b = CHR 0xFF then EOF else Some b))"
proof (cases "lex_t.type ctx = FILE_BACKED")
  case True
  show ?thesis
  proof (cases "fd ctx")
    case Nil
    with assms True show ?thesis
      by (auto simp: lex_getc_def fgetc_def unread_def fd_update_same)
  next
    case (Cons b bs)
    with assms True show ?thesis
      by (auto simp: lex_getc_def fgetc_def unread_def forward_def)
  qed
next
  case False
  with assms have p: "lex_t.position ctx < length (string ctx)"
    by (auto simp: lex_getc_def split: if_splits)
  then have "unread ctx = string ctx ! lex_t.position ctx # drop (Suc (lex_t.position ctx)) (string ctx)"
    using False by (simp add: unread_def Cons_nth_drop_Suc)
  with assms False p show ?thesis
    by (auto simp: lex_getc_def Let_def forward_def char_to_int_def)
qed

lemma lex_getc_adv: "lex_getc ctx = Inr (c, ctx') \<Longrightarrow> lex_adv ctx ctx'"
  using lex_getc_cases [of ctx c ctx'] lex_adv_refl [of ctx] lex_adv_forward [of 1 ctx]
  by auto

text \<open>
  Pushing back what was just read restores the source, but for the byte 0xFF of a
  stream, which \<^verbatim>\<open>ungetc\<close> is handed as \<^verbatim>\<open>EOF\<close> and does not push back.
\<close>

lemma lex_getc_ungetc:
  assumes "lex_getc ctx = Inr (c, ctx')"
  shows "lex_ungetc ctx' c =
           (if lex_t.type ctx = FILE_BACKED \<and> c = Some (CHR 0xFF) then forward 1 ctx else ctx)"
proof (cases "lex_t.type ctx = FILE_BACKED")
  case True
  show ?thesis
  proof (cases "fd ctx")
    case Nil
    with assms True show ?thesis
      by (auto simp: lex_getc_def fgetc_def lex_ungetc_def ungetc_def int_to_char_to_int_def
            fd_update_same)
  next
    case (Cons b bs)
    with assms True have c: "c = Some b" and ctx': "ctx' = ctx\<lparr>fd := bs\<rparr>"
      by (auto simp: lex_getc_def fgetc_def)
    show ?thesis
    proof (cases "b = CHR 0xFF")
      case True
      with c ctx' Cons \<open>lex_t.type ctx = FILE_BACKED\<close> show ?thesis
        by (simp add: lex_ungetc_def ungetc_def int_to_char_to_int_def char_to_int_def
              forward_def)
    next
      case False
      have "ctx\<lparr>fd := b # bs\<rparr> = ctx" using Cons by (rule fd_update_same)
      with False c ctx' \<open>lex_t.type ctx = FILE_BACKED\<close> show ?thesis
        by (simp add: lex_ungetc_def ungetc_def int_to_char_to_int_def char_to_int_def)
    qed
  qed
next
  case False
  with assms show ?thesis
    by (auto simp: lex_getc_def Let_def lex_ungetc_def split: if_splits)
qed

lemma lex_getc_ungetc_adv:
  assumes "lex_getc ctx = Inr (c, ctx')"
  shows "lex_adv ctx (lex_ungetc ctx' c)"
proof -
  from lex_getc_cases [OF assms] have "c = Some (CHR 0xFF) \<Longrightarrow> 1 \<le> length (unread ctx)"
    by auto
  then show ?thesis
    using lex_getc_ungetc [OF assms] lex_adv_refl [of ctx] lex_adv_forward [of 1 ctx]
    by (auto split: if_splits)
qed

lemma lex_chnumber_loop_adv:
  "lex_chnumber_loop ctx number = Inr (r, ctx') \<Longrightarrow> lex_adv ctx ctx'"
proof (induction ctx number rule: lex_chnumber_loop.induct)
  case (1 ctx number)
  show ?case
  proof (cases "lex_getc ctx")
    case (Inl e)
    with "1.prems" show ?thesis by (simp add: lex_chnumber_loop.simps [of ctx])
  next
    case (Inr p)
    obtain c c1 where p: "p = (c, c1)" by (cases p)
    note g = Inr [unfolded p]
    show ?thesis
    proof (cases c)
      case None
      with "1.prems" g lex_getc_adv [OF g] show ?thesis
        by (auto simp: lex_chnumber_loop.simps [of ctx])
    next
      case (Some ch)
      show ?thesis
      proof (cases "isdigit ch")
        case True
        with "1.prems" g Some
        have rec: "lex_chnumber_loop c1 (number @ [ch]) = Inr (r, ctx')"
          by (simp add: lex_chnumber_loop.simps [of ctx])
        from True have nn: "\<not> \<not> isdigit ch" by simp
        from "1.IH" [OF g refl Some nn rec] lex_getc_adv [OF g] show ?thesis
          by (rule lex_adv_trans [rotated])
      next
        case False
        with "1.prems" g Some lex_getc_ungetc_adv [OF g] show ?thesis
          by (auto simp: lex_chnumber_loop.simps [of ctx])
      qed
    qed
  qed
qed

lemma lex_chident_loop_adv:
  "lex_chident_loop ctx acc = Inr (r, ctx') \<Longrightarrow> lex_adv ctx ctx'"
proof (induction ctx acc rule: lex_chident_loop.induct)
  case (1 ctx acc)
  show ?case
  proof (cases "lex_getc ctx")
    case (Inl e)
    with "1.prems" show ?thesis by (simp add: lex_chident_loop.simps [of ctx])
  next
    case (Inr p)
    obtain c c1 where p: "p = (c, c1)" by (cases p)
    note g = Inr [unfolded p]
    show ?thesis
    proof (cases c)
      case None
      with "1.prems" g lex_getc_adv [OF g] show ?thesis
        by (auto simp: lex_chident_loop.simps [of ctx])
    next
      case (Some ch)
      show ?thesis
      proof (cases "\<not> isalpha ch \<or> ch = CHR ''_''")
        case False
        with "1.prems" g Some
        have rec: "lex_chident_loop c1 (acc @ [ch]) = Inr (r, ctx')"
          by (simp add: lex_chident_loop.simps [of ctx])
        from "1.IH" [OF g refl Some False rec] lex_getc_adv [OF g] show ?thesis
          by (rule lex_adv_trans [rotated])
      next
        case True
        with "1.prems" g Some lex_getc_ungetc_adv [OF g] show ?thesis
          by (auto simp: lex_chident_loop.simps [of ctx])
      qed
    qed
  qed
qed

lemma lex_chnot_adv: "lex_chnot ctx = Inr (r, ctx') \<Longrightarrow> lex_adv ctx ctx'"
  by (auto simp: lex_chnot_def split: sum.splits if_splits dest: lex_getc_adv)

lemma lex_cheq_adv: "lex_cheq ctx = Inr (r, ctx') \<Longrightarrow> lex_adv ctx ctx'"
  by (auto simp: lex_cheq_def split: sum.splits if_splits
        dest: lex_getc_adv lex_getc_ungetc_adv)

lemma lex_chor_adv: "lex_chor ctx = Inr (r, ctx') \<Longrightarrow> lex_adv ctx ctx'"
  by (auto simp: lex_chor_def split: sum.splits if_splits
        dest: lex_getc_adv lex_getc_ungetc_adv)

lemma lex_chand_adv: "lex_chand ctx = Inr (r, ctx') \<Longrightarrow> lex_adv ctx ctx'"
  by (auto simp: lex_chand_def split: sum.splits if_splits
        dest: lex_getc_adv lex_getc_ungetc_adv)

lemma lex_chlbr_adv: "lex_chlbr ctx = Inr (r, ctx') \<Longrightarrow> lex_adv ctx ctx'"
  by (auto simp: lex_chlbr_def split: sum.splits if_splits
        dest: lex_getc_adv lex_getc_ungetc_adv)

lemma lex_chrbr_adv: "lex_chrbr ctx = Inr (r, ctx') \<Longrightarrow> lex_adv ctx ctx'"
  by (auto simp: lex_chrbr_def split: sum.splits if_splits
        dest: lex_getc_adv lex_getc_ungetc_adv)

lemma lex_chnumber_adv: "lex_chnumber ctx v = Inr (r, ctx') \<Longrightarrow> lex_adv ctx ctx'"
  by (auto simp: lex_chnumber_def split: sum.splits dest: lex_chnumber_loop_adv)

lemma lex_chident_adv: "lex_chident ctx v = Inr (r, ctx') \<Longrightarrow> lex_adv ctx ctx'"
  by (auto simp: lex_chident_def split: sum.splits dest: lex_chident_loop_adv)

lemma lex_switch_adv:
  assumes "lex_switch c ctx = Inr (r, ctx')"
  shows "lex_adv ctx ctx'"
  using assms lex_adv_refl [of ctx]
  unfolding lex_switch_def
  by (simp split: option.splits if_splits
        add: lex_chnot_adv lex_cheq_adv lex_chor_adv lex_chand_adv lex_chlbr_adv
               lex_chrbr_adv lex_chnumber_adv lex_chident_adv)


lemma lex_adv_length: "lex_adv ctx ctx' \<Longrightarrow> length (unread ctx') \<le> length (unread ctx)"
  by (auto dest!: lex_adv_unread)

lemma lex_adv_type: "lex_adv ctx ctx' \<Longrightarrow> lex_t.type ctx' = lex_t.type ctx"
  by (auto dest!: lex_adv_unread)

lemma lex_getc_less:
  assumes "lex_getc ctx = Inr (c, ctx')"
  shows "length (unread ctx') < length (unread ctx)
       \<or> (lex_t.type ctx = FILE_BACKED \<and> c = EOF \<and> ctx' = ctx)"
  using lex_getc_cases [OF assms] by (auto simp: unread_forward)

lemma lex_skip_space_adv:
  assumes "lex_skip_space ctx = Inr (b, ctx')"
  shows "lex_adv ctx ctx' \<and> (b \<longrightarrow> length (unread ctx') < length (unread ctx))"
proof -
  from assms obtain c c1 where g: "lex_getc ctx = Inr (c, c1)"
    by (auto simp: lex_skip_space_def split: sum.splits)
  show ?thesis
  proof (cases c)
    case None
    with assms g lex_getc_adv [OF g] show ?thesis by (simp add: lex_skip_space_def)
  next
    case (Some ch)
    with assms g lex_getc_adv [OF g] lex_getc_ungetc_adv [OF g] lex_getc_less [OF g]
    show ?thesis by (auto simp: lex_skip_space_def split: if_splits)
  qed
qed

text \<open>
  A call of the lexer moves forward by at least one byte, or it is at the end of a
  stream and returns the end-of-input token.
\<close>

lemma lex_token_adv:
  assumes "lex_token ctx = Inr (r, ctx')"
  shows "lex_adv ctx ctx' \<and>
         (length (unread ctx') < length (unread ctx)
          \<or> (lex_t.type ctx = FILE_BACKED \<and> r = Some (lex_mkspecial TOK_EOF)))"
proof (cases "lex_skip_space ctx")
  case (Inl e)
  with assms show ?thesis by (simp add: lex_token_def)
next
  case (Inr p)
  obtain b c1 where p: "p = (b, c1)" by (cases p)
  note s = lex_skip_space_adv [OF Inr [unfolded p]]
  show ?thesis
  proof (cases b)
    case True
    with assms Inr p s show ?thesis by (auto simp: lex_token_def)
  next
    case False
    with assms Inr p obtain c c2 where g: "lex_getc c1 = Inr (c, c2)"
      and sw: "lex_switch c c2 = Inr (r, ctx')"
      by (auto simp: lex_token_def split: sum.splits)
    note a1 = conjunct1 [OF s]
    note a2 = lex_getc_adv [OF g]
    note a3 = lex_switch_adv [OF sw]
    have adv: "lex_adv ctx ctx'" by (rule lex_adv_trans [OF lex_adv_trans [OF a1 a2] a3])
    from lex_getc_less [OF g] show ?thesis
    proof
      assume "length (unread c2) < length (unread c1)"
      with lex_adv_length [OF a1] lex_adv_length [OF a3] adv show ?thesis by simp
    next
      assume e: "lex_t.type c1 = FILE_BACKED \<and> c = EOF \<and> c2 = c1"
      with sw have "r = Some (lex_mkspecial TOK_EOF)" by (simp add: lex_switch_def)
      with e lex_adv_type [OF a1] adv show ?thesis by simp
    qed
  qed
qed

lemma lex_token_less:
  assumes "lex_token ctx = Inr (Some tok, ctx')" and "token_t.type tok \<noteq> TOK_EOF"
  shows "length (unread ctx') < length (unread ctx)"
  using lex_token_adv [OF assms(1)] assms(2) by (auto simp: lex_mkspecial_def)

subsection \<open>The loop\<close>

text \<open>
  The \<^verbatim>\<open>do ... while (tok->type != TOK_EOF)\<close> loop of \<^verbatim>\<open>interpreter.c\<close>: it
  collects the tokens up to and including the first end-of-input token and gives up
  with "Invalid Syntax" when the lexer returns \<^verbatim>\<open>NULL\<close>. The second argument is the
  token vector filled so far, and each of the three ways in which the loop ends comes
  with the token vector as it is then.
\<close>

datatype lexed = Fault "token_t list" | InvalidSyntax "token_t list" | Tokens "token_t list"

function lex_tokens :: "lex_t \<Rightarrow> token_t list \<Rightarrow> lexed" where
  "lex_tokens lctx toks =
     (case lex_token lctx of
        Inl e \<Rightarrow> Fault toks
      | Inr (None, lctx') \<Rightarrow> InvalidSyntax toks
      | Inr (Some tok, lctx') \<Rightarrow>
          if type tok \<noteq> TOK_EOF then lex_tokens lctx' (toks @ [tok])
          else Tokens (toks @ [tok]))"
  by pat_completeness auto
termination
  by (relation "measure (\<lambda>(lctx, toks). length (unread lctx))")
     (auto dest: lex_token_less)

declare lex_tokens.simps [simp del]

text \<open>
  One line of the interpreter: lex the line, which is a string in memory, and parse the
  tokens if the lexer produced them all. \<open>Root\<close> is the node handed to the evaluator; an
  aborted parse is the interpreter's "Invalid expression".
\<close>

datatype line_result =
    Lexer_Fault
  | Invalid_Syntax
  | Invalid_Expression rdp_error
  | Root node_t

definition interpreter_line :: "char list \<Rightarrow> line_result" where
  "interpreter_line line =
     (case lex_tokens (lex_init line STRING_BACKED) [] of
        Fault toks \<Rightarrow> Lexer_Fault
      | InvalidSyntax toks \<Rightarrow> Invalid_Syntax
      | Tokens toks \<Rightarrow>
          (case rdp_generate_ast (rdp_init toks (length toks)) of
             Inl e \<Rightarrow> Invalid_Expression e
           | Inr (root, rctx) \<Rightarrow> Root root))"

text \<open>
  A text in a buffer whose bytes behind the text are zero. At the end of the text the
  lexer reads up to two bytes behind the terminator (\<^verbatim>\<open>lex_getc\<close> moves the cursor
  over the terminator, and \<^verbatim>\<open>lex_skip_space\<close> does not push it back), so the buffer
  holds the terminator and two more bytes.
\<close>

definition zero_padded :: "string \<Rightarrow> char list" where
  "zero_padded s = s @ [NUL, NUL, NUL]"

text \<open>Tokens as the lexer makes them, for writing down token sequences.\<close>

abbreviation NUM :: "string \<Rightarrow> token_t" where
  "NUM s \<equiv> lex_mknumber TOK_NUMBER s"

abbreviation KW :: "token_type \<Rightarrow> token_t" where
  "KW ty \<equiv> lex_mkkw ty"

section \<open>Precedence and associativity on the examples of the specification\<close>

text \<open>
  Claim C1. The text \<^verbatim>\<open>2+3*4\<close> is lexed to the five tokens and the end-of-input token,
  and parsed to \<open>Binary(plus, Leaf 2, Binary(multiply, Leaf 3, Leaf 4))\<close>; the text
  \<^verbatim>\<open>2*3+4\<close> is parsed to \<open>Binary(plus, Binary(multiply, Leaf 2, Leaf 3), Leaf 4)\<close>:
  the operands of the additive rule are parsed by the multiplicative rule, so \<open>*\<close>
  binds tighter than \<open>+\<close> on either side.
\<close>

theorem precedence_mult_over_additive:
  "lex_tokens (lex_init (zero_padded ''2+3*4'') STRING_BACKED) [] =
     Tokens [NUM ''2'', KW TOK_PLUS, NUM ''3'', KW TOK_MULTIPLY, NUM ''4'', lex_mkspecial TOK_EOF]
   \<and> interpreter_line (zero_padded ''2+3*4'') =
     Root (Binary TOK_PLUS (Leaf 2) (Binary TOK_MULTIPLY (Leaf 3) (Leaf 4)))
   \<and> lex_tokens (lex_init (zero_padded ''2*3+4'') STRING_BACKED) [] =
     Tokens [NUM ''2'', KW TOK_MULTIPLY, NUM ''3'', KW TOK_PLUS, NUM ''4'', lex_mkspecial TOK_EOF]
   \<and> interpreter_line (zero_padded ''2*3+4'') =
     Root (Binary TOK_PLUS (Binary TOK_MULTIPLY (Leaf 2) (Leaf 3)) (Leaf 4))"
  by code_simp

section \<open>Two-character operators\<close>

text \<open>
  \<open>at_chars pre c d rest k\<close>: a string in which the characters \<open>c\<close> and \<open>d\<close> follow
  the text \<open>pre\<close>, with the cursor \<open>k\<close> characters behind \<open>pre\<close>.
\<close>

definition at_chars :: "string \<Rightarrow> char \<Rightarrow> char \<Rightarrow> string \<Rightarrow> nat \<Rightarrow> lex_t" where
  "at_chars pre c d rest k =
     (lex_init (pre @ c # d # rest) STRING_BACKED)\<lparr>lex_t.position := length pre + k\<rparr>"

lemma lex_getc_at_chars_0:
  "lex_getc (at_chars pre c d rest 0) =
     Inr (if c = NUL \<or> c = CHR 0xFF then EOF else Some c, at_chars pre c d rest 1)"
  by (simp add: lex_getc_def Let_def at_chars_def lex_init_def char_to_int_def)

lemma lex_getc_at_chars_1:
  "lex_getc (at_chars pre c d rest (Suc 0)) =
     Inr (if d = NUL \<or> d = CHR 0xFF then EOF else Some d, at_chars pre c d rest 2)"
  by (simp add: lex_getc_def Let_def at_chars_def lex_init_def char_to_int_def nth_append)

lemma lex_ungetc_at_chars_1:
  "lex_ungetc (at_chars pre c d rest (Suc 0)) x = at_chars pre c d rest 0"
  by (simp add: lex_ungetc_def at_chars_def lex_init_def)

lemma lex_ungetc_at_chars_2:
  "lex_ungetc (at_chars pre c d rest 2) x = at_chars pre c d rest (Suc 0)"
  by (simp add: lex_ungetc_def at_chars_def lex_init_def)

lemma lex_token_at_chars:
  assumes "c \<noteq> NUL" and "c \<noteq> CHR 0xFF" and "\<not> isspace c"
  shows "lex_token (at_chars pre c d rest 0) = lex_switch (Some c) (at_chars pre c d rest (Suc 0))"
  using assms
  by (simp add: lex_token_def lex_skip_space_def lex_getc_at_chars_0
        lex_ungetc_at_chars_1)

lemma lex_token_chnot:
  "lex_token (at_chars pre (CHR ''!'') d rest 0) =
     Inr (if d = CHR ''='' then Some (lex_mkkw TOK_NEQUALITY) else None,
          at_chars pre (CHR ''!'') d rest 2)"
  by (simp add: lex_token_at_chars isspace_def lex_switch_def lex_chnot_def lex_getc_at_chars_1)

lemma lex_token_cheq:
  "lex_token (at_chars pre (CHR ''='') d rest 0) =
     (if d = CHR ''='' then Inr (Some (lex_mkkw TOK_EQUALITY), at_chars pre (CHR ''='') d rest 2)
      else Inr (Some (lex_mkkw TOK_BWOR), at_chars pre (CHR ''='') d rest 1))"
  by (simp add: lex_token_at_chars isspace_def lex_switch_def lex_cheq_def lex_getc_at_chars_1
        lex_ungetc_at_chars_2)

lemma lex_token_chand:
  "lex_token (at_chars pre (CHR ''&'') d rest 0) =
     (if d = CHR ''&'' then Inr (Some (lex_mkkw TOK_LAND), at_chars pre (CHR ''&'') d rest 2)
      else Inr (Some (lex_mkkw TOK_BWAND), at_chars pre (CHR ''&'') d rest 1))"
  by (simp add: lex_token_at_chars isspace_def lex_switch_def lex_chand_def lex_getc_at_chars_1
        lex_ungetc_at_chars_2)

lemma lex_token_chor:
  "lex_token (at_chars pre (CHR ''|'') d rest 0) =
     (if d = CHR ''|'' then Inr (Some (lex_mkkw TOK_LOR), at_chars pre (CHR ''|'') d rest 2)
      else Inr (Some (lex_mkkw TOK_BWOR), at_chars pre (CHR ''|'') d rest 1))"
  by (simp add: lex_token_at_chars isspace_def lex_switch_def lex_chor_def lex_getc_at_chars_1
        lex_ungetc_at_chars_2)

lemma lex_token_chlbr:
  "lex_token (at_chars pre (CHR ''<'') d rest 0) =
     (if d = CHR ''<'' then Inr (Some (lex_mkkw TOK_LSHIFT), at_chars pre (CHR ''<'') d rest 2)
      else if d = CHR ''='' then Inr (Some (lex_mkkw TOK_LTE), at_chars pre (CHR ''<'') d rest 2)
      else Inr (Some (lex_mkkw TOK_LT), at_chars pre (CHR ''<'') d rest 1))"
  by (simp add: lex_token_at_chars isspace_def lex_switch_def lex_chlbr_def lex_getc_at_chars_1
        lex_ungetc_at_chars_2)

lemma lex_token_chrbr:
  "lex_token (at_chars pre (CHR ''>'') d rest 0) =
     (if d = CHR ''>'' then Inr (Some (lex_mkkw TOK_RSHIFT), at_chars pre (CHR ''>'') d rest 2)
      else if d = CHR ''='' then Inr (Some (lex_mkkw TOK_GTE), at_chars pre (CHR ''>'') d rest 2)
      else Inr (Some (lex_mkkw TOK_GT), at_chars pre (CHR ''>'') d rest 1))"
  by (simp add: lex_token_at_chars isspace_def lex_switch_def lex_chrbr_def lex_getc_at_chars_1
        lex_ungetc_at_chars_2)

text \<open>The same on a stream that starts with the two characters.\<close>

lemma lex_getc_file:
  "lex_getc (lex_init (c # rest) FILE_BACKED) = Inr (Some c, lex_init rest FILE_BACKED)"
  by (simp add: lex_getc_def fgetc_def lex_init_def)

lemma lex_ungetc_file:
  "lex_ungetc (lex_init rest FILE_BACKED) (Some d) =
     lex_init (if d = CHR 0xFF then rest else d # rest) FILE_BACKED"
  by (simp add: lex_ungetc_def ungetc_def int_to_char_to_int_def char_to_int_def lex_init_def)

lemma lex_token_file:
  assumes "c \<noteq> CHR 0xFF" and "\<not> isspace c"
  shows "lex_token (lex_init (c # rest) FILE_BACKED) =
           lex_switch (Some c) (lex_init rest FILE_BACKED)"
  using assms
  by (simp add: lex_token_def lex_skip_space_def lex_getc_file lex_ungetc_file)

lemma lex_token_chnot_file:
  "lex_token (lex_init (CHR ''!'' # d # rest) FILE_BACKED) =
     Inr (if d = CHR ''='' then Some (lex_mkkw TOK_NEQUALITY) else None,
          lex_init rest FILE_BACKED)"
  by (simp add: lex_token_file isspace_def lex_switch_def lex_chnot_def lex_getc_file)

lemma lex_token_cheq_file:
  "lex_token (lex_init (CHR ''='' # d # rest) FILE_BACKED) =
     (if d = CHR ''='' then Inr (Some (lex_mkkw TOK_EQUALITY), lex_init rest FILE_BACKED)
      else Inr (Some (lex_mkkw TOK_BWOR),
             lex_init (if d = CHR 0xFF then rest else d # rest) FILE_BACKED))"
  by (simp add: lex_token_file isspace_def lex_switch_def lex_cheq_def lex_getc_file
        lex_ungetc_file)

lemma lex_token_chand_file:
  "lex_token (lex_init (CHR ''&'' # d # rest) FILE_BACKED) =
     (if d = CHR ''&'' then Inr (Some (lex_mkkw TOK_LAND), lex_init rest FILE_BACKED)
      else Inr (Some (lex_mkkw TOK_BWAND),
             lex_init (if d = CHR 0xFF then rest else d # rest) FILE_BACKED))"
  by (simp add: lex_token_file isspace_def lex_switch_def lex_chand_def lex_getc_file
        lex_ungetc_file)

lemma lex_token_chor_file:
  "lex_token (lex_init (CHR ''|'' # d # rest) FILE_BACKED) =
     (if d = CHR ''|'' then Inr (Some (lex_mkkw TOK_LOR), lex_init rest FILE_BACKED)
      else Inr (Some (lex_mkkw TOK_BWOR),
             lex_init (if d = CHR 0xFF then rest else d # rest) FILE_BACKED))"
  by (simp add: lex_token_file isspace_def lex_switch_def lex_chor_def lex_getc_file
        lex_ungetc_file)

lemma lex_token_chlbr_file:
  "lex_token (lex_init (CHR ''<'' # d # rest) FILE_BACKED) =
     (if d = CHR ''<'' then Inr (Some (lex_mkkw TOK_LSHIFT), lex_init rest FILE_BACKED)
      else if d = CHR ''='' then Inr (Some (lex_mkkw TOK_LTE), lex_init rest FILE_BACKED)
      else Inr (Some (lex_mkkw TOK_LT),
             lex_init (if d = CHR 0xFF then rest else d # rest) FILE_BACKED))"
  by (simp add: lex_token_file isspace_def lex_switch_def lex_chlbr_def lex_getc_file
        lex_ungetc_file)

lemma lex_token_chrbr_file:
  "lex_token (lex_init (CHR ''>'' # d # rest) FILE_BACKED) =
     (if d = CHR ''>'' then Inr (Some (lex_mkkw TOK_RSHIFT), lex_init rest FILE_BACKED)
      else if d = CHR ''='' then Inr (Some (lex_mkkw TOK_GTE), lex_init rest FILE_BACKED)
      else Inr (Some (lex_mkkw TOK_GT),
             lex_init (if d = CHR 0xFF then rest else d # rest) FILE_BACKED))"
  by (simp add: lex_token_file isspace_def lex_switch_def lex_chrbr_def lex_getc_file
        lex_ungetc_file)

text \<open>
  Claim C3, as the code has it. For a first character out of \<open>= & | < >\<close> the lexer
  reads one more character. If the two form one of \<open>== && || << <= >> >=\<close> it returns
  the token of the pair, with the cursor behind both. Otherwise it returns the token of
  the first character alone (\<open>TOK_BWOR\<close> for \<open>=\<close>) and pushes the second character
  back: in a string the cursor is on the second character, which \<^verbatim>\<open>lex_getc\<close> reads
  next, and in a stream the second character is the next byte, unless it is the byte
  0xFF. For \<open>!\<close> only the pair \<open>!=\<close> gives a token: before any other character the
  lexer returns no token (\<^verbatim>\<open>NULL\<close>) and the source stays behind the character read.
\<close>

theorem lex_token_two_char:
  "lex_token (at_chars pre (CHR ''='') d rest 0) =
     (if d = CHR ''='' then Inr (Some (KW TOK_EQUALITY), at_chars pre (CHR ''='') d rest 2)
      else Inr (Some (KW TOK_BWOR), at_chars pre (CHR ''='') d rest 1))
   \<and> lex_token (at_chars pre (CHR ''&'') d rest 0) =
     (if d = CHR ''&'' then Inr (Some (KW TOK_LAND), at_chars pre (CHR ''&'') d rest 2)
      else Inr (Some (KW TOK_BWAND), at_chars pre (CHR ''&'') d rest 1))
   \<and> lex_token (at_chars pre (CHR ''|'') d rest 0) =
     (if d = CHR ''|'' then Inr (Some (KW TOK_LOR), at_chars pre (CHR ''|'') d rest 2)
      else Inr (Some (KW TOK_BWOR), at_chars pre (CHR ''|'') d rest 1))
   \<and> lex_token (at_chars pre (CHR ''<'') d rest 0) =
     (if d = CHR ''<'' then Inr (Some (KW TOK_LSHIFT), at_chars pre (CHR ''<'') d rest 2)
      else if d = CHR ''='' then Inr (Some (KW TOK_LTE), at_chars pre (CHR ''<'') d rest 2)
      else Inr (Some (KW TOK_LT), at_chars pre (CHR ''<'') d rest 1))
   \<and> lex_token (at_chars pre (CHR ''>'') d rest 0) =
     (if d = CHR ''>'' then Inr (Some (KW TOK_RSHIFT), at_chars pre (CHR ''>'') d rest 2)
      else if d = CHR ''='' then Inr (Some (KW TOK_GTE), at_chars pre (CHR ''>'') d rest 2)
      else Inr (Some (KW TOK_GT), at_chars pre (CHR ''>'') d rest 1))
   \<and> lex_token (at_chars pre (CHR ''!'') d rest 0) =
     Inr (if d = CHR ''='' then Some (KW TOK_NEQUALITY) else None,
          at_chars pre (CHR ''!'') d rest 2)
   \<and> lex_getc (at_chars pre c d rest 1) =
     Inr (if d = NUL \<or> d = CHR 0xFF then EOF else Some d, at_chars pre c d rest 2)
   \<and> lex_token (lex_init (CHR ''='' # d # rest) FILE_BACKED) =
     (if d = CHR ''='' then Inr (Some (KW TOK_EQUALITY), lex_init rest FILE_BACKED)
      else Inr (Some (KW TOK_BWOR),
             lex_init (if d = CHR 0xFF then rest else d # rest) FILE_BACKED))
   \<and> lex_token (lex_init (CHR ''&'' # d # rest) FILE_BACKED) =
     (if d = CHR ''&'' then Inr (Some (KW TOK_LAND), lex_init rest FILE_BACKED)
      else Inr (Some (KW TOK_BWAND),
             lex_init (if d = CHR 0xFF then rest else d # rest) FILE_BACKED))
   \<and> lex_token (lex_init (CHR ''|'' # d # rest) FILE_BACKED) =
     (if d = CHR ''|'' then Inr (Some (KW TOK_LOR), lex_init rest FILE_BACKED)
      else Inr (Some (KW TOK_BWOR),
             lex_init (if d = CHR 0xFF then rest else d # rest) FILE_BACKED))
   \<and> lex_token (lex_init (CHR ''<'' # d # rest) FILE_BACKED) =
     (if d = CHR ''<'' then Inr (Some (KW TOK_LSHIFT), lex_init rest FILE_BACKED)
      else if d = CHR ''='' then Inr (Some (KW TOK_LTE), lex_init rest FILE_BACKED)
      else Inr (Some (KW TOK_LT),
             lex_init (if d = CHR 0xFF then rest else d # rest) FILE_BACKED))
   \<and> lex_token (lex_init (CHR ''>'' # d # rest) FILE_BACKED) =
     (if d = CHR ''>'' then Inr (Some (KW TOK_RSHIFT), lex_init rest FILE_BACKED)
      else if d = CHR ''='' then Inr (Some (KW TOK_GTE), lex_init rest FILE_BACKED)
      else Inr (Some (KW TOK_GT),
             lex_init (if d = CHR 0xFF then rest else d # rest) FILE_BACKED))
   \<and> lex_token (lex_init (CHR ''!'' # d # rest) FILE_BACKED) =
     Inr (if d = CHR ''='' then Some (KW TOK_NEQUALITY) else None, lex_init rest FILE_BACKED)
   \<and> lex_getc (lex_init (d # rest) FILE_BACKED) = Inr (Some d, lex_init rest FILE_BACKED)"
  using lex_token_cheq [of pre d rest] lex_token_chand [of pre d rest]
    lex_token_chor [of pre d rest] lex_token_chlbr [of pre d rest]
    lex_token_chrbr [of pre d rest] lex_token_chnot [of pre d rest]
    lex_getc_at_chars_1 [of pre c d rest]
    lex_token_cheq_file [of d rest] lex_token_chand_file [of d rest]
    lex_token_chor_file [of d rest] lex_token_chlbr_file [of d rest]
    lex_token_chrbr_file [of d rest] lex_token_chnot_file [of d rest]
    lex_getc_file [of d rest]
  by simp

text \<open>
  Claim C3 as stated fails for \<open>!\<close>: on the text \<^verbatim>\<open>!1\<close> the lexer returns no token, and
  the cursor is behind the \<open>1\<close>, which is not pushed back. On a stream the byte 0xFF
  behind an operator is not pushed back either: after \<open>&\<close> and that byte the next
  character read is the \<open>1\<close>.
\<close>

theorem lex_token_bare_not:
  "lex_token (lex_init (zero_padded ''!1'') STRING_BACKED) =
     Inr (None, (lex_init (zero_padded ''!1'') STRING_BACKED)\<lparr>lex_t.position := 2\<rparr>)
   \<and> lex_token (lex_init [CHR ''!'', CHR ''1''] FILE_BACKED) =
     Inr (None, lex_init [] FILE_BACKED)
   \<and> lex_token (lex_init [CHR ''&'', CHR 0xFF, CHR ''1''] FILE_BACKED) =
     Inr (Some (KW TOK_BWAND), lex_init [CHR ''1''] FILE_BACKED)"
  by code_simp

text \<open>
  Claim C4. An \<open>=\<close> that is not followed by a second \<open>=\<close> is lexed to the token
  \<open>TOK_BWOR\<close>, the very token of a \<open>|\<close> that is not followed by a second \<open>|\<close>, and the
  character behind it is read next. The parser cannot tell the two apart: the texts
  \<^verbatim>\<open>1=2^3\<close> and \<^verbatim>\<open>1|2^3\<close> give the same tokens, and \<open>=\<close> is folded by the loop of the
  bitwise-or rule, below \<open>^\<close> on either side.
\<close>

theorem bare_eq_is_bwor:
  "d \<noteq> CHR ''='' \<Longrightarrow>
     lex_token (at_chars pre (CHR ''='') d rest 0) =
       Inr (Some (KW TOK_BWOR), at_chars pre (CHR ''='') d rest 1)
     \<and> (if d = CHR ''|'' then True
        else lex_token (at_chars pre (CHR ''|'') d rest 0) =
               Inr (Some (KW TOK_BWOR), at_chars pre (CHR ''|'') d rest 1))
     \<and> lex_tokens (lex_init (zero_padded ''1=2^3'') STRING_BACKED) [] =
         lex_tokens (lex_init (zero_padded ''1|2^3'') STRING_BACKED) []
     \<and> lex_tokens (lex_init (zero_padded ''1=2^3'') STRING_BACKED) [] =
         Tokens [NUM ''1'', KW TOK_BWOR, NUM ''2'', KW TOK_BWXOR, NUM ''3'', lex_mkspecial TOK_EOF]
     \<and> interpreter_line (zero_padded ''1=2^3'') =
         Root (Binary TOK_BWOR (Leaf 1) (Binary TOK_BWXOR (Leaf 2) (Leaf 3)))
     \<and> interpreter_line (zero_padded ''1^2=3'') =
         Root (Binary TOK_BWOR (Binary TOK_BWXOR (Leaf 1) (Leaf 2)) (Leaf 3))
     \<and> interpreter_line (zero_padded ''1=2'') = interpreter_line (zero_padded ''1|2'')"
proof -
  assume d: "d \<noteq> CHR ''=''"
  have ex: "lex_tokens (lex_init (zero_padded ''1=2^3'') STRING_BACKED) [] =
         lex_tokens (lex_init (zero_padded ''1|2^3'') STRING_BACKED) []
     \<and> lex_tokens (lex_init (zero_padded ''1=2^3'') STRING_BACKED) [] =
         Tokens [NUM ''1'', KW TOK_BWOR, NUM ''2'', KW TOK_BWXOR, NUM ''3'', lex_mkspecial TOK_EOF]
     \<and> interpreter_line (zero_padded ''1=2^3'') =
         Root (Binary TOK_BWOR (Leaf 1) (Binary TOK_BWXOR (Leaf 2) (Leaf 3)))
     \<and> interpreter_line (zero_padded ''1^2=3'') =
         Root (Binary TOK_BWOR (Binary TOK_BWXOR (Leaf 1) (Leaf 2)) (Leaf 3))
     \<and> interpreter_line (zero_padded ''1=2'') = interpreter_line (zero_padded ''1|2'')"
    by code_simp
  have a: "lex_token (at_chars pre (CHR ''='') d rest 0) =
       Inr (Some (KW TOK_BWOR), at_chars pre (CHR ''='') d rest 1)"
    using d lex_token_cheq [of pre d rest] by simp
  have b: "if d = CHR ''|'' then True
        else lex_token (at_chars pre (CHR ''|'') d rest 0) =
               Inr (Some (KW TOK_BWOR), at_chars pre (CHR ''|'') d rest 1)"
    using lex_token_chor [of pre d rest] by simp
  show ?thesis by (rule conjI [OF a conjI [OF b ex]])
qed

theorem bare_eq_is_bwor_witness:
  "lex_token (at_chars ''1'' (CHR ''='') (CHR ''2'') [NUL, NUL, NUL] 0) =
     Inr (Some (KW TOK_BWOR), at_chars ''1'' (CHR ''='') (CHR ''2'') [NUL, NUL, NUL] 1)
   \<and> lex_token (at_chars ''1'' (CHR ''|'') (CHR ''2'') [NUL, NUL, NUL] 0) =
     Inr (Some (KW TOK_BWOR), at_chars ''1'' (CHR ''|'') (CHR ''2'') [NUL, NUL, NUL] 1)"
  using bare_eq_is_bwor [of "CHR ''2''" "''1''" "[NUL, NUL, NUL]"] by simp

section \<open>The token sequence of a source\<close>

text \<open>
  The lexer returns no token only at a \<open>!\<close> that is not followed by \<open>=\<close>: by another
  byte, or by the end of a stream.
\<close>

definition bare_not :: "lex_t \<Rightarrow> bool" where
  "bare_not ctx \<longleftrightarrow>
     (\<exists>pre post. unread ctx = pre @ CHR ''!'' # post \<and>
        (case post of [] \<Rightarrow> lex_t.type ctx = FILE_BACKED | d # ds \<Rightarrow> d \<noteq> CHR ''=''))"

lemma bare_not_adv:
  assumes "lex_adv ctx ctx'" and "bare_not ctx'"
  shows "bare_not ctx"
proof -
  from lex_adv_unread [OF assms(1)] obtain k where
    k: "unread ctx' = drop k (unread ctx)" "lex_t.type ctx' = lex_t.type ctx" by blast
  from assms(2) obtain pre post where p: "unread ctx' = pre @ CHR ''!'' # post"
    "case post of [] \<Rightarrow> lex_t.type ctx' = FILE_BACKED | d # ds \<Rightarrow> d \<noteq> CHR ''=''"
    unfolding bare_not_def by blast
  have "unread ctx = take k (unread ctx) @ drop k (unread ctx)" by simp
  with k(1) p(1) have "unread ctx = (take k (unread ctx) @ pre) @ CHR ''!'' # post" by simp
  with p(2) k(2) show ?thesis unfolding bare_not_def by metis
qed

lemma lex_token_None:
  assumes "lex_token lctx = Inr (None, lctx')"
  shows "bare_not lctx"
proof -
  from assms obtain c1 c c2 where sk: "lex_skip_space lctx = Inr (False, c1)"
    and g: "lex_getc c1 = Inr (c, c2)" and sw: "lex_switch c c2 = Inr (None, lctx')"
    by (auto simp: lex_token_def split: sum.splits bool.splits)
  from sw have c: "c = Some (CHR ''!'')" and nt: "lex_chnot c2 = Inr (None, lctx')"
    by (auto simp: lex_switch_def lex_chnumber_def lex_chident_def lex_cheq_def lex_chor_def
          lex_chand_def lex_chlbr_def lex_chrbr_def split: option.splits if_splits sum.splits)
  from lex_getc_cases [OF g] c obtain bs where
    u1: "unread c1 = CHR ''!'' # bs" and c2: "c2 = forward 1 c1"
    by (auto split: if_splits)
  from nt obtain c' where g2: "lex_getc c2 = Inr (c', lctx')" and c': "c' \<noteq> Some (CHR ''='')"
    by (auto simp: lex_chnot_def split: sum.splits if_splits)
  have u2: "unread c2 = bs" using u1 c2 by (simp add: unread_forward)
  have t2: "lex_t.type c2 = lex_t.type c1" using c2 by (simp add: type_forward)
  from lex_getc_cases [OF g2] c' u2 t2
  have "case bs of [] \<Rightarrow> lex_t.type c1 = FILE_BACKED | d # ds \<Rightarrow> d \<noteq> CHR ''=''"
    by (auto split: if_splits list.splits)
  with u1 have "bare_not c1" unfolding bare_not_def by (intro exI [of _ "[]"] exI [of _ bs]) simp
  with lex_skip_space_adv [OF sk] show ?thesis by (auto intro: bare_not_adv)
qed

lemma lex_tokens_Tokens:
  "lex_tokens lctx acc = Tokens toks \<Longrightarrow>
     \<exists>new. toks = acc @ new \<and> new \<noteq> [] \<and> type (last new) = TOK_EOF \<and>
           (\<forall>t\<in>set (butlast new). type t \<noteq> TOK_EOF) \<and>
           length new \<le> length (unread lctx) +
             (if lex_t.type lctx = FILE_BACKED then 1 else 0)"
proof (induction lctx acc rule: lex_tokens.induct)
  case (1 lctx acc)
  from "1.prems" obtain tok c1 where lt: "lex_token lctx = Inr (Some tok, c1)"
    by (auto simp: lex_tokens.simps [of lctx] split: sum.splits option.splits)
  note adv = lex_token_adv [OF lt]
  show ?case
  proof (cases "type tok = TOK_EOF")
    case True
    with "1.prems" lt have "toks = acc @ [tok]" by (simp add: lex_tokens.simps [of lctx])
    with True adv show ?thesis by auto
  next
    case False
    with "1.prems" lt have rec: "lex_tokens c1 (acc @ [tok]) = Tokens toks"
      by (simp add: lex_tokens.simps [of lctx])
    from "1.IH" [OF lt refl refl False rec] obtain new where n: "toks = (acc @ [tok]) @ new"
      "new \<noteq> []" "type (last new) = TOK_EOF" "\<forall>t\<in>set (butlast new). type t \<noteq> TOK_EOF"
      "length new \<le> length (unread c1) + (if lex_t.type c1 = FILE_BACKED then 1 else 0)"
      by blast
    have "toks = acc @ (tok # new)" using n(1) by simp
    moreover have "tok # new \<noteq> []" by simp
    moreover have "type (last (tok # new)) = TOK_EOF" using n(2,3) by simp
    moreover have "\<forall>t\<in>set (butlast (tok # new)). type t \<noteq> TOK_EOF" using n(2,4) False by simp
    moreover have "length (tok # new) \<le> length (unread lctx) +
             (if lex_t.type lctx = FILE_BACKED then 1 else 0)"
      using n(5) lex_token_less [OF lt False] lex_adv_type [OF conjunct1 [OF adv]] by auto
    ultimately show ?thesis by blast
  qed
qed

lemma lex_tokens_InvalidSyntax:
  "lex_tokens lctx acc = InvalidSyntax toks \<Longrightarrow>
     bare_not lctx \<and>
     (\<exists>new. toks = acc @ new \<and> (\<forall>t\<in>set new. type t \<noteq> TOK_EOF) \<and>
            length new < length (unread lctx))"
proof (induction lctx acc rule: lex_tokens.induct)
  case (1 lctx acc)
  show ?case
  proof (cases "\<exists>c1. lex_token lctx = Inr (None, c1)")
    case True
    then obtain c1 where lt: "lex_token lctx = Inr (None, c1)" by blast
    with "1.prems" have "toks = acc @ []" by (simp add: lex_tokens.simps [of lctx])
    moreover from lex_token_adv [OF lt] have "length [] < length (unread lctx)"
      by (auto simp: lex_mkspecial_def)
    ultimately show ?thesis using lex_token_None [OF lt] by (intro conjI exI [of _ "[]"]) simp_all
  next
    case False
    with "1.prems" obtain tok c1 where lt: "lex_token lctx = Inr (Some tok, c1)"
      and ne: "type tok \<noteq> TOK_EOF" and rec: "lex_tokens c1 (acc @ [tok]) = InvalidSyntax toks"
      by (auto simp: lex_tokens.simps [of lctx] split: sum.splits option.splits if_splits)
    from "1.IH" [OF lt refl refl ne rec] obtain new where n: "bare_not c1"
      "toks = (acc @ [tok]) @ new" "\<forall>t\<in>set new. type t \<noteq> TOK_EOF"
      "length new < length (unread c1)" by blast
    from n(1) lex_token_adv [OF lt] have "bare_not lctx" by (auto intro: bare_not_adv)
    moreover have "toks = acc @ (tok # new)" using n(2) by simp
    moreover have "\<forall>t\<in>set (tok # new). type t \<noteq> TOK_EOF" using n(3) ne by simp
    moreover have "length (tok # new) < length (unread lctx)"
      using n(4) lex_token_less [OF lt ne] by simp
    ultimately show ?thesis by blast
  qed
qed

lemma lex_tokens_Fault:
  "lex_tokens lctx acc = Fault toks \<Longrightarrow>
     \<exists>new. toks = acc @ new \<and> (\<forall>t\<in>set new. type t \<noteq> TOK_EOF) \<and>
           length new \<le> length (unread lctx)"
proof (induction lctx acc rule: lex_tokens.induct)
  case (1 lctx acc)
  show ?case
  proof (cases "\<exists>e. lex_token lctx = Inl e")
    case True
    with "1.prems" have "toks = acc @ []" by (auto simp: lex_tokens.simps [of lctx])
    then show ?thesis by (intro exI [of _ "[]"]) simp
  next
    case False
    with "1.prems" obtain tok c1 where lt: "lex_token lctx = Inr (Some tok, c1)"
      and ne: "type tok \<noteq> TOK_EOF" and rec: "lex_tokens c1 (acc @ [tok]) = Fault toks"
      by (auto simp: lex_tokens.simps [of lctx] split: sum.splits option.splits if_splits)
    from "1.IH" [OF lt refl refl ne rec] obtain new where n:
      "toks = (acc @ [tok]) @ new" "\<forall>t\<in>set new. type t \<noteq> TOK_EOF"
      "length new \<le> length (unread c1)" by blast
    have "toks = acc @ (tok # new)" using n(1) by simp
    moreover have "\<forall>t\<in>set (tok # new). type t \<noteq> TOK_EOF" using n(2) ne by simp
    moreover have "length (tok # new) \<le> length (unread lctx)"
      using n(3) lex_token_less [OF lt ne] by simp
    ultimately show ?thesis by blast
  qed
qed

subsection \<open>Reads within the source\<close>

text \<open>
  \<open>within n ctx\<close>: the source is a stream, or it is a string with a zero byte \<open>n\<close>
  bytes ahead of the cursor. \<open>reaches n ctx ctx'\<close>: the source is a stream, or \<open>ctx'\<close>
  is the string \<open>ctx\<close> with the cursor at most \<open>n\<close> bytes further on.
\<close>

definition within :: "nat \<Rightarrow> lex_t \<Rightarrow> bool" where
  "within n ctx \<longleftrightarrow>
     lex_t.type ctx = FILE_BACKED \<or> (n < length (unread ctx) \<and> unread ctx ! n = NUL)"

definition reaches :: "nat \<Rightarrow> lex_t \<Rightarrow> lex_t \<Rightarrow> bool" where
  "reaches n ctx ctx' \<longleftrightarrow>
     lex_t.type ctx' = lex_t.type ctx \<and>
     (lex_t.type ctx = FILE_BACKED \<or> (\<exists>k\<le>n. ctx' = forward k ctx))"

lemma lex_getc_within:
  assumes "within n ctx"
  shows "\<exists>c ctx'. lex_getc ctx = Inr (c, ctx')"
proof (cases "lex_t.type ctx = FILE_BACKED")
  case True
  then show ?thesis by (simp add: lex_getc_def split: prod.splits)
next
  case False
  with assms have "lex_t.position ctx < length (string ctx)"
    by (auto simp: within_def unread_def)
  with False show ?thesis by (simp add: lex_getc_def Let_def)
qed

lemma reaches_refl: "reaches n ctx ctx"
  unfolding reaches_def by (auto intro: exI [of _ 0] simp: forward_0)

lemma reaches_mono: "reaches n ctx ctx' \<Longrightarrow> n \<le> m \<Longrightarrow> reaches m ctx ctx'"
  unfolding reaches_def using le_trans by blast

lemma reaches_forward: "k \<le> n \<Longrightarrow> reaches n ctx (forward k ctx)"
  unfolding reaches_def by (auto simp: type_forward)

lemma reaches_step:
  assumes "reaches n (forward 1 ctx) ctx'"
  shows "reaches (Suc n) ctx ctx'"
  using assms unfolding reaches_def
  by (auto simp: type_forward forward_forward intro: exI [of _ "Suc k" for k])

lemma lex_getc_reaches: "lex_getc ctx = Inr (c, ctx') \<Longrightarrow> reaches 1 ctx ctx'"
  using lex_getc_cases [of ctx c ctx'] reaches_refl [of 1 ctx] reaches_forward [of 1 1 ctx]
  by auto

lemma lex_getc_ungetc_reaches:
  "lex_getc ctx = Inr (c, ctx') \<Longrightarrow> reaches 0 ctx (lex_ungetc ctx' c)"
  using lex_getc_ungetc [of ctx c ctx'] reaches_refl [of 0 ctx]
  by (auto simp: reaches_def type_forward)

text \<open>In a string, a character that is returned is the byte under the cursor, and no zero byte.\<close>

lemma within_step:
  assumes "within n ctx" and "lex_getc ctx = Inr (Some ch, ctx')"
    and "lex_t.type ctx \<noteq> FILE_BACKED"
  shows "\<exists>m. n = Suc m \<and> within m ctx' \<and> ctx' = forward 1 ctx"
proof -
  from lex_getc_cases [OF assms(2)] assms(3) obtain b bs where
    u: "unread ctx = b # bs" and c: "ctx' = forward 1 ctx" and b: "b \<noteq> NUL"
    by (auto split: if_splits)
  from assms(1,3) have n: "n < length (unread ctx)" "unread ctx ! n = NUL"
    by (auto simp: within_def)
  with u b obtain m where m: "n = Suc m" by (cases n) auto
  with n u have "m < length bs" "bs ! m = NUL" by auto
  with c u have "within m ctx'" by (simp add: within_def unread_forward)
  with m c show ?thesis by blast
qed

lemma lex_chnumber_loop_within:
  "within n ctx \<Longrightarrow>
     \<exists>r ctx'. lex_chnumber_loop ctx number = Inr (r, ctx') \<and> reaches (Suc n) ctx ctx'"
proof (induction ctx number arbitrary: n rule: lex_chnumber_loop.induct)
  case (1 ctx number)
  from lex_getc_within [OF "1.prems"] obtain c c1 where g: "lex_getc ctx = Inr (c, c1)"
    by blast
  show ?case
  proof (cases c)
    case None
    with g have "lex_chnumber_loop ctx number = Inr (number, c1)"
      by (simp add: lex_chnumber_loop.simps [of ctx])
    with reaches_mono [OF lex_getc_reaches [OF g], of "Suc n"] show ?thesis by auto
  next
    case (Some ch)
    show ?thesis
    proof (cases "isdigit ch")
      case False
      with g Some have "lex_chnumber_loop ctx number = Inr (number, lex_ungetc c1 c)"
        by (simp add: lex_chnumber_loop.simps [of ctx])
      with reaches_mono [OF lex_getc_ungetc_reaches [OF g], of "Suc n"] show ?thesis by auto
    next
      case True
      from True have nn: "\<not> \<not> isdigit ch" by simp
      have eq: "lex_chnumber_loop ctx number = lex_chnumber_loop c1 (number @ [ch])"
        using g Some True by (simp add: lex_chnumber_loop.simps [of ctx])
      show ?thesis
      proof (cases "lex_t.type ctx = FILE_BACKED")
        case isfile: True
        from lex_getc_reaches [OF g] have t: "lex_t.type c1 = FILE_BACKED"
          using isfile by (simp add: reaches_def)
        then have "within 0 c1" by (simp add: within_def)
        from "1.IH" [OF g refl Some nn this] t isfile eq show ?thesis
          by (auto simp: reaches_def)
      next
        case False
        from within_step [OF "1.prems" g [unfolded Some] False] obtain m where
          m: "n = Suc m" "within m c1" "c1 = forward 1 ctx" by blast
        from "1.IH" [OF g refl Some nn m(2)] obtain r ctx' where
          r: "lex_chnumber_loop c1 (number @ [ch]) = Inr (r, ctx')" "reaches (Suc m) c1 ctx'"
          by blast
        from r(2) m(1,3) have "reaches (Suc n) ctx ctx'" by (simp add: reaches_step)
        with r(1) eq show ?thesis by auto
      qed
    qed
  qed
qed

lemma lex_chident_loop_within:
  "within n ctx \<Longrightarrow>
     \<exists>r ctx'. lex_chident_loop ctx acc = Inr (r, ctx') \<and> reaches (Suc n) ctx ctx'"
proof (induction ctx acc arbitrary: n rule: lex_chident_loop.induct)
  case (1 ctx acc)
  from lex_getc_within [OF "1.prems"] obtain c c1 where g: "lex_getc ctx = Inr (c, c1)"
    by blast
  show ?case
  proof (cases c)
    case None
    with g have "lex_chident_loop ctx acc = Inr (acc, c1)"
      by (simp add: lex_chident_loop.simps [of ctx])
    with reaches_mono [OF lex_getc_reaches [OF g], of "Suc n"] show ?thesis by auto
  next
    case (Some ch)
    show ?thesis
    proof (cases "\<not> isalpha ch \<or> ch = CHR ''_''")
      case True
      with g Some have "lex_chident_loop ctx acc = Inr (acc, lex_ungetc c1 c)"
        by (simp add: lex_chident_loop.simps [of ctx])
      with reaches_mono [OF lex_getc_ungetc_reaches [OF g], of "Suc n"] show ?thesis by auto
    next
      case nn: False
      have eq: "lex_chident_loop ctx acc = lex_chident_loop c1 (acc @ [ch])"
        using g Some nn by (simp add: lex_chident_loop.simps [of ctx])
      show ?thesis
      proof (cases "lex_t.type ctx = FILE_BACKED")
        case isfile: True
        from lex_getc_reaches [OF g] have t: "lex_t.type c1 = FILE_BACKED"
          using isfile by (simp add: reaches_def)
        then have "within 0 c1" by (simp add: within_def)
        from "1.IH" [OF g refl Some nn this] t isfile eq show ?thesis
          by (auto simp: reaches_def)
      next
        case False
        from within_step [OF "1.prems" g [unfolded Some] False] obtain m where
          m: "n = Suc m" "within m c1" "c1 = forward 1 ctx" by blast
        from "1.IH" [OF g refl Some nn m(2)] obtain r ctx' where
          r: "lex_chident_loop c1 (acc @ [ch]) = Inr (r, ctx')" "reaches (Suc m) c1 ctx'"
          by blast
        from r(2) m(1,3) have "reaches (Suc n) ctx ctx'" by (simp add: reaches_step)
        with r(1) eq show ?thesis by auto
      qed
    qed
  qed
qed

lemma lex_chnumber_within:
  "within n ctx \<Longrightarrow> \<exists>r ctx'. lex_chnumber ctx v = Inr (r, ctx') \<and> reaches (Suc n) ctx ctx'"
  using lex_chnumber_loop_within [of n ctx "[v]"] by (auto simp: lex_chnumber_def)

lemma lex_chident_within:
  "within n ctx \<Longrightarrow> \<exists>r ctx'. lex_chident ctx v = Inr (r, ctx') \<and> reaches (Suc n) ctx ctx'"
  using lex_chident_loop_within [of n ctx "[v]"] by (auto simp: lex_chident_def)

lemma lex_chnot_within:
  assumes "within n ctx"
  shows "\<exists>r ctx'. lex_chnot ctx = Inr (r, ctx') \<and> reaches (Suc n) ctx ctx'"
proof -
  from lex_getc_within [OF assms] obtain c c1 where g: "lex_getc ctx = Inr (c, c1)" by blast
  from reaches_mono [OF lex_getc_reaches [OF g], of "Suc n"] g show ?thesis
    by (auto simp: lex_chnot_def)
qed

lemma lex_cheq_within:
  assumes "within n ctx"
  shows "\<exists>r ctx'. lex_cheq ctx = Inr (r, ctx') \<and> reaches (Suc n) ctx ctx'"
proof -
  from lex_getc_within [OF assms] obtain c c1 where g: "lex_getc ctx = Inr (c, c1)" by blast
  from reaches_mono [OF lex_getc_reaches [OF g], of "Suc n"]
    reaches_mono [OF lex_getc_ungetc_reaches [OF g], of "Suc n"] g show ?thesis
    by (auto simp: lex_cheq_def)
qed

lemma lex_chor_within:
  assumes "within n ctx"
  shows "\<exists>r ctx'. lex_chor ctx = Inr (r, ctx') \<and> reaches (Suc n) ctx ctx'"
proof -
  from lex_getc_within [OF assms] obtain c c1 where g: "lex_getc ctx = Inr (c, c1)" by blast
  from reaches_mono [OF lex_getc_reaches [OF g], of "Suc n"]
    reaches_mono [OF lex_getc_ungetc_reaches [OF g], of "Suc n"] g show ?thesis
    by (auto simp: lex_chor_def)
qed

lemma lex_chand_within:
  assumes "within n ctx"
  shows "\<exists>r ctx'. lex_chand ctx = Inr (r, ctx') \<and> reaches (Suc n) ctx ctx'"
proof -
  from lex_getc_within [OF assms] obtain c c1 where g: "lex_getc ctx = Inr (c, c1)" by blast
  from reaches_mono [OF lex_getc_reaches [OF g], of "Suc n"]
    reaches_mono [OF lex_getc_ungetc_reaches [OF g], of "Suc n"] g show ?thesis
    by (auto simp: lex_chand_def)
qed

lemma lex_chlbr_within:
  assumes "within n ctx"
  shows "\<exists>r ctx'. lex_chlbr ctx = Inr (r, ctx') \<and> reaches (Suc n) ctx ctx'"
proof -
  from lex_getc_within [OF assms] obtain c c1 where g: "lex_getc ctx = Inr (c, c1)" by blast
  from reaches_mono [OF lex_getc_reaches [OF g], of "Suc n"]
    reaches_mono [OF lex_getc_ungetc_reaches [OF g], of "Suc n"] g show ?thesis
    by (auto simp: lex_chlbr_def)
qed

lemma lex_chrbr_within:
  assumes "within n ctx"
  shows "\<exists>r ctx'. lex_chrbr ctx = Inr (r, ctx') \<and> reaches (Suc n) ctx ctx'"
proof -
  from lex_getc_within [OF assms] obtain c c1 where g: "lex_getc ctx = Inr (c, c1)" by blast
  from reaches_mono [OF lex_getc_reaches [OF g], of "Suc n"]
    reaches_mono [OF lex_getc_ungetc_reaches [OF g], of "Suc n"] g show ?thesis
    by (auto simp: lex_chrbr_def)
qed

lemma lex_switch_within:
  assumes "within n ctx"
  shows "\<exists>r ctx'. lex_switch c ctx = Inr (r, ctx') \<and> reaches (Suc n) ctx ctx'"
  using reaches_refl [of "Suc n" ctx]
  unfolding lex_switch_def
  by (simp split: option.split
        add: lex_chnot_within [OF assms] lex_cheq_within [OF assms] lex_chor_within [OF assms]
          lex_chand_within [OF assms] lex_chlbr_within [OF assms] lex_chrbr_within [OF assms]
          lex_chnumber_within [OF assms] lex_chident_within [OF assms])

text \<open>
  \<open>safe ctx\<close>: the source is a stream, or a string that has, from the cursor on, two
  zero bytes and nothing else, or three zero bytes at its end. A call of the lexer on a
  safe source reads within the source, and leaves a safe source unless it returns the
  end-of-input token.
\<close>

definition safe :: "lex_t \<Rightarrow> bool" where
  "safe ctx \<longleftrightarrow>
     lex_t.type ctx = FILE_BACKED \<or> unread ctx = [NUL, NUL] \<or>
     (\<exists>w. unread ctx = w @ [NUL, NUL, NUL])"

lemma safe_reaches:
  assumes "unread c = w @ [NUL, NUL, NUL]" and "reaches (Suc (length w)) c ctx'"
  shows "safe ctx'"
proof (cases "lex_t.type c = FILE_BACKED")
  case True
  with assms(2) show ?thesis by (simp add: safe_def reaches_def)
next
  case False
  with assms(2) obtain k where k: "k \<le> Suc (length w)" "ctx' = forward k c"
    by (auto simp: reaches_def)
  show ?thesis
  proof (cases "k \<le> length w")
    case True
    with k assms(1) have "unread ctx' = drop k w @ [NUL, NUL, NUL]"
      by (simp add: unread_forward)
    then show ?thesis unfolding safe_def by blast
  next
    case False
    with k have "k = Suc (length w)" by simp
    with k assms(1) have "unread ctx' = [NUL, NUL]" by (simp add: unread_forward)
    then show ?thesis by (simp add: safe_def)
  qed
qed

lemma unread_Cons_position:
  "lex_t.type ctx \<noteq> FILE_BACKED \<Longrightarrow> unread ctx = b # bs \<Longrightarrow>
     lex_t.position ctx < length (string ctx)"
  by (rule ccontr) (simp add: unread_def)

lemma lex_skip_space_total:
  assumes "within n ctx"
  shows "\<exists>b c1. lex_skip_space ctx = Inr (b, c1)"
proof -
  from lex_getc_within [OF assms] obtain c c1 where "lex_getc ctx = Inr (c, c1)" by blast
  then show ?thesis by (cases c) (auto simp: lex_skip_space_def)
qed

lemma lex_switch_safe:
  assumes "lex_t.type c1 \<noteq> FILE_BACKED"
    and "(\<exists>w. unread c1 = w @ [NUL, NUL, NUL]) \<or> (\<exists>z. unread c1 = NUL # z)"
  shows "\<exists>c c2 r ctx'. lex_getc c1 = Inr (c, c2) \<and> lex_switch c c2 = Inr (r, ctx') \<and>
           (r = Some (lex_mkspecial TOK_EOF) \<or> safe ctx')"
proof -
  from assms(2) obtain b bs where u: "unread c1 = b # bs"
    by (cases "unread c1") auto
  from unread_Cons_position [OF assms(1) u] have "lex_t.position c1 < length (string c1)" .
  with assms(1) obtain c c2 where g: "lex_getc c1 = Inr (c, c2)"
    by (simp add: lex_getc_def Let_def)
  show ?thesis
  proof (cases c)
    case None
    with g show ?thesis by (simp add: lex_switch_def)
  next
    case (Some ch)
    from lex_getc_cases [OF g] assms(1) Some u have b: "b \<noteq> NUL" by (auto split: if_splits)
    with assms(2) u obtain w where w: "unread c1 = w @ [NUL, NUL, NUL]" by auto
    then have "within (length w) c1" by (simp add: within_def nth_append)
    from within_step [OF this g [unfolded Some] assms(1)] obtain m where
      m: "length w = Suc m" "within m c2" "c2 = forward 1 c1" by blast
    from m(1) obtain a w' where w': "w = a # w'" "length w' = m" by (cases w) auto
    have u2: "unread c2 = w' @ [NUL, NUL, NUL]"
      using m(3) w w'(1) by (simp add: unread_forward)
    from lex_switch_within [OF m(2), of c] obtain r ctx' where
      r: "lex_switch c c2 = Inr (r, ctx')" "reaches (Suc m) c2 ctx'" by blast
    from safe_reaches [OF u2] r(2) w'(2) have "safe ctx'" by simp
    with g r(1) show ?thesis by blast
  qed
qed

lemma lex_token_safe:
  assumes "safe ctx"
  shows "\<exists>r ctx'. lex_token ctx = Inr (r, ctx') \<and>
           (r = Some (lex_mkspecial TOK_EOF) \<or> safe ctx')"
proof (cases "lex_t.type ctx = FILE_BACKED")
  case True
  then have w: "within 0 ctx" by (simp add: within_def)
  from lex_skip_space_total [OF w] obtain b c1 where sk: "lex_skip_space ctx = Inr (b, c1)"
    by blast
  from lex_skip_space_adv [OF sk] True have t1: "lex_t.type c1 = FILE_BACKED"
    by (auto dest: lex_adv_type)
  then have w1: "within 0 c1" by (simp add: within_def)
  from lex_getc_within [OF w1] obtain c c2 where g: "lex_getc c1 = Inr (c, c2)" by blast
  from lex_getc_adv [OF g] t1 have "lex_t.type c2 = FILE_BACKED" by (auto dest: lex_adv_type)
  then have w2: "within 0 c2" by (simp add: within_def)
  from lex_switch_within [OF w2, of c] obtain r2 c3 where sw: "lex_switch c c2 = Inr (r2, c3)"
    by blast
  from sk g sw obtain r ctx' where lt: "lex_token ctx = Inr (r, ctx')"
    by (cases b) (auto simp: lex_token_def)
  from lex_token_adv [OF lt] True have "safe ctx'" by (auto simp: safe_def dest: lex_adv_type)
  with lt show ?thesis by blast
next
  case False
  with assms have u: "unread ctx = [NUL, NUL] \<or> (\<exists>w. unread ctx = w @ [NUL, NUL, NUL])"
    by (simp add: safe_def)
  then obtain b bs where bb: "unread ctx = b # bs" by (cases "unread ctx") auto
  from unread_Cons_position [OF False bb] have "lex_t.position ctx < length (string ctx)" .
  with False obtain c c1 where g: "lex_getc ctx = Inr (c, c1)"
    by (simp add: lex_getc_def Let_def)
  from lex_getc_cases [OF g] False bb have c1: "c1 = forward 1 ctx"
    and c: "c = (if b = NUL \<or> b = CHR 0xFF then EOF else Some b)" by auto
  have t1: "lex_t.type c1 \<noteq> FILE_BACKED" using c1 False by (simp add: type_forward)
  have u1: "unread c1 = bs" using c1 bb by (simp add: unread_forward)
  show ?thesis
  proof (cases c)
    case None
    with g have sk: "lex_skip_space ctx = Inr (False, c1)" by (simp add: lex_skip_space_def)
    have "(\<exists>w. bs = w @ [NUL, NUL, NUL]) \<or> (\<exists>z. bs = NUL # z)"
    proof -
      from u show ?thesis
      proof
        assume "unread ctx = [NUL, NUL]"
        with bb have "bs = [NUL]" by auto
        then show ?thesis by blast
      next
        assume "\<exists>w. unread ctx = w @ [NUL, NUL, NUL]"
        then obtain w where w: "b # bs = w @ [NUL, NUL, NUL]" using bb by auto
        then show ?thesis by (cases w) auto
      qed
    qed
    with u1 have "(\<exists>w. unread c1 = w @ [NUL, NUL, NUL]) \<or> (\<exists>z. unread c1 = NUL # z)"
      by simp
    from lex_switch_safe [OF t1 this] sk show ?thesis
      by (auto simp: lex_token_def)
  next
    case (Some ch)
    with c have b: "b \<noteq> NUL" by (auto split: if_splits)
    with u bb obtain w where w: "b # bs = w @ [NUL, NUL, NUL]" by auto
    with b obtain w' where w': "bs = w' @ [NUL, NUL, NUL]" by (cases w) auto
    show ?thesis
    proof (cases "isspace ch")
      case True
      with g Some have "lex_skip_space ctx = Inr (True, c1)" by (simp add: lex_skip_space_def)
      then have "lex_token ctx = Inr (Some (lex_mkspecial TOK_SPACE), c1)"
        by (simp add: lex_token_def)
      moreover have "safe c1" using u1 w' unfolding safe_def by blast
      ultimately show ?thesis by blast
    next
      case nsp: False
      from lex_getc_ungetc [OF g] False have "lex_ungetc c1 c = ctx" by simp
      with g Some nsp have sk: "lex_skip_space ctx = Inr (False, ctx)"
        by (simp add: lex_skip_space_def)
      from w bb have "(\<exists>w. unread ctx = w @ [NUL, NUL, NUL]) \<or> (\<exists>z. unread ctx = NUL # z)"
        by auto
      from lex_switch_safe [OF False this] sk show ?thesis
        by (auto simp: lex_token_def)
    qed
  qed
qed

lemma lex_tokens_safe: "safe lctx \<Longrightarrow> lex_tokens lctx acc \<noteq> Fault toks"
proof (induction lctx acc rule: lex_tokens.induct)
  case (1 lctx acc)
  from lex_token_safe [OF "1.prems"] obtain r ctx' where
    lt: "lex_token lctx = Inr (r, ctx')" and s: "r = Some (lex_mkspecial TOK_EOF) \<or> safe ctx'"
    by blast
  show ?case
  proof (cases r)
    case None
    with lt show ?thesis by (simp add: lex_tokens.simps [of lctx])
  next
    case (Some tok)
    show ?thesis
    proof (cases "type tok = TOK_EOF")
      case True
      with lt Some show ?thesis by (simp add: lex_tokens.simps [of lctx])
    next
      case False
      with s Some have "safe ctx'" by (auto simp: lex_mkspecial_def)
      from "1.IH" [OF lt [unfolded Some] refl refl False this] lt Some False show ?thesis
        by (simp add: lex_tokens.simps [of lctx])
    qed
  qed
qed

lemma safe_zero_padded: "safe (lex_init (zero_padded s) STRING_BACKED)"
  unfolding safe_def by (simp add: lex_init_def unread_def zero_padded_def)

lemma safe_file: "safe (lex_init bytes FILE_BACKED)"
  unfolding safe_def by (simp add: lex_init_def)

text \<open>
  Claim C7, as the code has it. The loop that calls the lexer until the end-of-input
  token is a total function: every call but the one that returns the end-of-input
  token at the end of a stream moves forward in the source, so the number of calls is
  bounded by the number of bytes ahead. Every token has one of the kinds of
  \<open>token_type\<close>. The loop ends in one of three ways: with an end-of-input token, which
  is the last token and the only one of its kind; with no token (\<^verbatim>\<open>NULL\<close>), and then
  the source has a \<open>!\<close> that is not followed by \<open>=\<close>; or with a read outside of a
  string. The last does not happen for a stream, nor for a text in a buffer that holds
  two more zero bytes behind the terminator of the text.
\<close>

theorem lex_tokens_outcome:
  "((\<exists>toks. lex_tokens lctx [] = Tokens toks \<and> toks \<noteq> [] \<and> type (last toks) = TOK_EOF \<and>
        (\<forall>t\<in>set (butlast toks). type t \<noteq> TOK_EOF) \<and>
        length toks \<le> length (unread lctx) +
          (if lex_t.type lctx = FILE_BACKED then 1 else 0))
    \<or> (\<exists>toks. lex_tokens lctx [] = InvalidSyntax toks \<and> bare_not lctx \<and>
        (\<forall>t\<in>set toks. type t \<noteq> TOK_EOF) \<and> length toks < length (unread lctx))
    \<or> (\<exists>toks. lex_tokens lctx [] = Fault toks \<and> lex_t.type lctx = STRING_BACKED \<and>
        \<not> safe lctx \<and> (\<forall>t\<in>set toks. type t \<noteq> TOK_EOF) \<and>
        length toks \<le> length (unread lctx)))
   \<and> safe (lex_init (zero_padded s) STRING_BACKED)
   \<and> safe (lex_init bytes FILE_BACKED)"
proof (intro conjI)
  show "safe (lex_init (zero_padded s) STRING_BACKED)" by (rule safe_zero_padded)
  show "safe (lex_init bytes FILE_BACKED)" by (rule safe_file)
  show "(\<exists>toks. lex_tokens lctx [] = Tokens toks \<and> toks \<noteq> [] \<and> type (last toks) = TOK_EOF \<and>
        (\<forall>t\<in>set (butlast toks). type t \<noteq> TOK_EOF) \<and>
        length toks \<le> length (unread lctx) +
          (if lex_t.type lctx = FILE_BACKED then 1 else 0))
    \<or> (\<exists>toks. lex_tokens lctx [] = InvalidSyntax toks \<and> bare_not lctx \<and>
        (\<forall>t\<in>set toks. type t \<noteq> TOK_EOF) \<and> length toks < length (unread lctx))
    \<or> (\<exists>toks. lex_tokens lctx [] = Fault toks \<and> lex_t.type lctx = STRING_BACKED \<and>
        \<not> safe lctx \<and> (\<forall>t\<in>set toks. type t \<noteq> TOK_EOF) \<and>
        length toks \<le> length (unread lctx))"
  proof (cases "lex_tokens lctx []")
    case (Fault toks)
    from lex_tokens_safe [of lctx "[]" toks] Fault have ns: "\<not> safe lctx" by blast
    then have "lex_t.type lctx \<noteq> FILE_BACKED" by (auto simp: safe_def)
    then have "lex_t.type lctx = STRING_BACKED" by (cases "lex_t.type lctx") simp_all
    with lex_tokens_Fault [OF Fault] ns Fault show ?thesis by simp
  next
    case (InvalidSyntax toks)
    with lex_tokens_InvalidSyntax [OF InvalidSyntax] show ?thesis by simp
  next
    case (Tokens toks)
    with lex_tokens_Tokens [OF Tokens] show ?thesis by simp
  qed
qed

theorem lex_tokens_outcome_witness:
  "\<exists>toks. lex_tokens (lex_init (zero_padded ''1 +2'') STRING_BACKED) [] = Tokens toks \<and>
     toks \<noteq> [] \<and> type (last toks) = TOK_EOF \<and> (\<forall>t\<in>set (butlast toks). type t \<noteq> TOK_EOF) \<and>
     length toks \<le> 7"
proof -
  have "lex_tokens (lex_init (zero_padded ''1 +2'') STRING_BACKED) [] =
      Tokens [NUM ''1'', lex_mkspecial TOK_SPACE, KW TOK_PLUS, NUM ''2'', lex_mkspecial TOK_EOF]"
    by code_simp
  with lex_tokens_outcome [of "lex_init (zero_padded ''1 +2'') STRING_BACKED" "[]" "[]"]
  show ?thesis
    by (simp add: lex_init_def zero_padded_def unread_def)
qed

text \<open>
  Claim C7 as stated fails: on the text \<^verbatim>\<open>1!2\<close> the second call of the lexer returns no
  token, and no end-of-input token is ever produced.
\<close>

theorem lex_tokens_bare_not:
  "lex_tokens (lex_init (zero_padded ''1!2'') STRING_BACKED) [] = InvalidSyntax [NUM ''1'']
   \<and> lex_token (lex_init (zero_padded ''1!2'') STRING_BACKED) =
       Inr (Some (NUM ''1''), (lex_init (zero_padded ''1!2'') STRING_BACKED)\<lparr>lex_t.position := 1\<rparr>)
   \<and> lex_token ((lex_init (zero_padded ''1!2'') STRING_BACKED)\<lparr>lex_t.position := 1\<rparr>) =
       Inr (None, (lex_init (zero_padded ''1!2'') STRING_BACKED)\<lparr>lex_t.position := 3\<rparr>)
   \<and> lex_tokens (lex_init ''1!2'' FILE_BACKED) [] = InvalidSyntax [NUM ''1'']"
  by code_simp

text \<open>
  The reads behind the terminator: a text that is followed by its terminator alone
  cannot be lexed to its end within the string, and what follows the terminator of a
  line in a buffer is lexed as if it belonged to the line. The byte 0xFF between two
  tokens is skipped: in a string it is read as \<^verbatim>\<open>EOF\<close>, like a terminator, and in a
  stream it is read and not pushed back. A zero byte in a stream is a character for
  which the lexer returns the end-of-input token.
\<close>

lemma lex_tokens_behind_terminator:
  "lex_tokens (lex_init (''1'' @ [NUL]) STRING_BACKED) [] = Fault [NUM ''1'']
   \<and> interpreter_line (''1'' @ [CHR 0x0A, NUL] @ ''+3'' @ [CHR 0x0A, NUL, NUL, NUL]) =
       Root (Binary TOK_PLUS (Leaf 1) (Leaf 3))
   \<and> lex_tokens (lex_init (zero_padded (''1+'' @ [CHR 0xFF] @ ''2'')) STRING_BACKED) [] =
       Tokens [NUM ''1'', KW TOK_PLUS, NUM ''2'', lex_mkspecial TOK_EOF]
   \<and> lex_tokens (lex_init (''1+'' @ [CHR 0xFF] @ ''2'') FILE_BACKED) [] =
       Tokens [NUM ''1'', KW TOK_PLUS, NUM ''2'', lex_mkspecial TOK_EOF]
   \<and> lex_tokens (lex_init (''1'' @ [NUL] @ ''+2'') FILE_BACKED) [] =
       Tokens [NUM ''1'', lex_mkspecial TOK_EOF]"
  by code_simp

section \<open>Failures of the parser\<close>

text \<open>
  Claim C6. A failure of the parser is a result without a node. The text \<^verbatim>\<open>(1+2\<close> fails
  with \<open>UnexpectedToken\<close>: the expression behind the parenthesis is parsed to its end,
  the token popped behind it is the end-of-input token, and the test for the closing
  parenthesis fails. The text \<^verbatim>\<open>)\<close> fails with \<open>UnexpectedToken\<close> in the primary rule:
  the token is no opening parenthesis, and \<^verbatim>\<open>rdp_const\<close> finds that it is no number.
  Neither parse reads outside of the tokens.
\<close>

theorem parse_failures:
  "interpreter_line (zero_padded ''(1+2'') = Invalid_Expression UnexpectedToken
   \<and> lex_tokens (lex_init (zero_padded ''(1+2'') STRING_BACKED) [] =
       Tokens [KW TOK_LPAREN, NUM ''1'', KW TOK_PLUS, NUM ''2'', lex_mkspecial TOK_EOF]
   \<and> rdp_expression 50
        \<lparr>tokens = [KW TOK_LPAREN, NUM ''1'', KW TOK_PLUS, NUM ''2'', lex_mkspecial TOK_EOF],
         position = 1, length_rdp = 5\<rparr> =
       Inr (Binary TOK_PLUS (Leaf 1) (Leaf 2),
         \<lparr>tokens = [KW TOK_LPAREN, NUM ''1'', KW TOK_PLUS, NUM ''2'', lex_mkspecial TOK_EOF],
          position = 4, length_rdp = 5\<rparr>)
   \<and> rdp_generate_ast
        (rdp_init [KW TOK_LPAREN, NUM ''1'', KW TOK_PLUS, NUM ''2'', lex_mkspecial TOK_EOF] 5) =
       Inl UnexpectedToken
   \<and> interpreter_line (zero_padded '')'') = Invalid_Expression UnexpectedToken
   \<and> lex_tokens (lex_init (zero_padded '')'') STRING_BACKED) [] =
       Tokens [KW TOK_RPAREN, lex_mkspecial TOK_EOF]
   \<and> rdp_const (rdp_init [KW TOK_RPAREN, lex_mkspecial TOK_EOF] 2) = Inl UnexpectedToken
   \<and> rdp_primary_exp 1 (rdp_init [KW TOK_RPAREN, lex_mkspecial TOK_EOF] 2) = Inl UnexpectedToken
   \<and> rdp_generate_ast (rdp_init [KW TOK_RPAREN, lex_mkspecial TOK_EOF] 2) = Inl UnexpectedToken"
  by code_simp


text \<open>
  The five binary rules have one shape and differ in their operators and in the rule
  that parses an operand. The definitions below are that shape, with the rules called
  as parameters: \<open>rdp_paren\<close> is the body of \<^verbatim>\<open>rdp_primary_exp\<close>, \<open>rdp_binary_exp\<close> the
  body of a binary rule, and \<open>rdp_binary_loop\<close> one round of its loop. Every rule with
  fuel \<open>Suc n\<close> is one of them applied to rules with fuel \<open>n\<close> (\<open>rdp_rules_Suc\<close>,
  \<open>rdp_loops_Suc\<close>), so a property that the three shapes preserve holds for all rules
  and every fuel (\<open>rdp_rules_induct\<close>).
\<close>

type_synonym parsed = "rdp_error + (node_t \<times> rdp_t)"

definition rdp_paren :: "(rdp_t \<Rightarrow> parsed) \<Rightarrow> rdp_t \<Rightarrow> parsed" where
  "rdp_paren expression ctx =
     (case rdp_consume_blanks ctx of
        Inl e \<Rightarrow> Inl e
      | Inr c1 \<Rightarrow>
          (case rdp_peek c1 of
             Inl e \<Rightarrow> Inl e
           | Inr left \<Rightarrow>
               if type left = TOK_LPAREN then
                 (case expression (rdp_consume c1) of
                    Inl e \<Rightarrow> Inl e
                  | Inr (expr, c2) \<Rightarrow>
                      (case rdp_consume_blanks c2 of
                         Inl e \<Rightarrow> Inl e
                       | Inr c3 \<Rightarrow>
                           (case rdp_pop c3 of
                              Inl e \<Rightarrow> Inl e
                            | Inr (right, c4) \<Rightarrow>
                                if type right = TOK_RPAREN then Inr (expr, c4)
                                else xerror ''Invalid symbol encountered'')))
               else rdp_const c1))"

definition rdp_binary_exp ::
  "(rdp_t \<Rightarrow> parsed) \<Rightarrow> (node_t \<Rightarrow> rdp_t \<Rightarrow> parsed) \<Rightarrow> rdp_t \<Rightarrow> parsed" where
  "rdp_binary_exp sub loop ctx =
     (case sub ctx of
        Inl e \<Rightarrow> Inl e
      | Inr (left, c1) \<Rightarrow> loop left c1)"

definition rdp_binary_loop ::
  "token_type set \<Rightarrow> (rdp_t \<Rightarrow> parsed) \<Rightarrow> (node_t \<Rightarrow> rdp_t \<Rightarrow> parsed) \<Rightarrow>
   node_t \<Rightarrow> rdp_t \<Rightarrow> parsed" where
  "rdp_binary_loop ops sub loop left ctx =
     (case rdp_consume_blanks ctx of
        Inl e \<Rightarrow> Inl e
      | Inr c1 \<Rightarrow>
          (case rdp_peek c1 of
             Inl e \<Rightarrow> Inl e
           | Inr op \<Rightarrow>
               if type op \<in> ops then
                 (case sub (rdp_consume c1) of
                    Inl e \<Rightarrow> Inl e
                  | Inr (right, c2) \<Rightarrow> loop (ast_binary_operator (type op) left right) c2)
               else Inr (left, c1)))"

definition binary_operators :: "token_type set" where
  "binary_operators =
     {TOK_BWOR, TOK_BWXOR, TOK_BWAND, TOK_PLUS, TOK_MINUS, TOK_MULTIPLY, TOK_DIV, TOK_MOD}"

definition no_fuel :: "rdp_t \<Rightarrow> parsed" where
  "no_fuel ctx = Inl OutOfFuel"

definition no_fuel_loop :: "node_t \<Rightarrow> rdp_t \<Rightarrow> parsed" where
  "no_fuel_loop left ctx = Inl OutOfFuel"

lemmas rdp_rules_simps =
  rdp_primary_exp.simps
  rdp_unary_exp.simps
  rdp_mult_exp.simps
  rdp_mult_exp_loop.simps
  rdp_additive_exp.simps
  rdp_additive_exp_loop.simps
  rdp_and_exp.simps
  rdp_and_exp_loop.simps
  rdp_xor_exp.simps
  rdp_xor_exp_loop.simps
  rdp_ior_exp.simps
  rdp_ior_exp_loop.simps
  rdp_expression.simps

declare rdp_rules_simps [simp del]

lemma rdp_rules_0:
  "rdp_primary_exp 0 = no_fuel" "rdp_unary_exp 0 = no_fuel" "rdp_expression 0 = no_fuel"
  "rdp_mult_exp 0 = no_fuel" "rdp_mult_exp_loop 0 = no_fuel_loop"
  "rdp_additive_exp 0 = no_fuel" "rdp_additive_exp_loop 0 = no_fuel_loop"
  "rdp_and_exp 0 = no_fuel" "rdp_and_exp_loop 0 = no_fuel_loop"
  "rdp_xor_exp 0 = no_fuel" "rdp_xor_exp_loop 0 = no_fuel_loop"
  "rdp_ior_exp 0 = no_fuel" "rdp_ior_exp_loop 0 = no_fuel_loop"
  by (simp_all add: fun_eq_iff no_fuel_def no_fuel_loop_def rdp_rules_simps)

lemma rdp_rules_Suc:
  "rdp_primary_exp (Suc n) = rdp_paren (rdp_expression n)"
  "rdp_unary_exp (Suc n) = rdp_primary_exp n"
  "rdp_expression (Suc n) = rdp_ior_exp n"
  "rdp_mult_exp (Suc n) = rdp_binary_exp (rdp_unary_exp n) (rdp_mult_exp_loop n)"
  "rdp_additive_exp (Suc n) = rdp_binary_exp (rdp_mult_exp n) (rdp_additive_exp_loop n)"
  "rdp_and_exp (Suc n) = rdp_binary_exp (rdp_additive_exp n) (rdp_and_exp_loop n)"
  "rdp_xor_exp (Suc n) = rdp_binary_exp (rdp_and_exp n) (rdp_xor_exp_loop n)"
  "rdp_ior_exp (Suc n) = rdp_binary_exp (rdp_xor_exp n) (rdp_ior_exp_loop n)"
  by (simp_all add: fun_eq_iff rdp_paren_def rdp_binary_exp_def rdp_rules_simps)

lemma rdp_loops_Suc:
  "rdp_mult_exp_loop (Suc n) =
     rdp_binary_loop {TOK_MULTIPLY, TOK_DIV, TOK_MOD} (rdp_unary_exp n) (rdp_mult_exp_loop n)"
  "rdp_additive_exp_loop (Suc n) =
     rdp_binary_loop {TOK_PLUS, TOK_MINUS} (rdp_mult_exp n) (rdp_additive_exp_loop n)"
  "rdp_and_exp_loop (Suc n) =
     rdp_binary_loop {TOK_BWAND} (rdp_additive_exp n) (rdp_and_exp_loop n)"
  "rdp_xor_exp_loop (Suc n) =
     rdp_binary_loop {TOK_BWXOR} (rdp_and_exp n) (rdp_xor_exp_loop n)"
  "rdp_ior_exp_loop (Suc n) =
     rdp_binary_loop {TOK_BWOR} (rdp_xor_exp n) (rdp_ior_exp_loop n)"
  by (simp_all add: fun_eq_iff rdp_binary_loop_def rdp_rules_simps split: sum.splits)

definition all_rules ::
  "((rdp_t \<Rightarrow> parsed) \<Rightarrow> bool) \<Rightarrow> ((node_t \<Rightarrow> rdp_t \<Rightarrow> parsed) \<Rightarrow> bool) \<Rightarrow> nat \<Rightarrow> bool" where
  "all_rules P PL n \<longleftrightarrow>
     P (rdp_primary_exp n) \<and> P (rdp_unary_exp n) \<and> P (rdp_expression n) \<and>
     P (rdp_mult_exp n) \<and> PL (rdp_mult_exp_loop n) \<and>
     P (rdp_additive_exp n) \<and> PL (rdp_additive_exp_loop n) \<and>
     P (rdp_and_exp n) \<and> PL (rdp_and_exp_loop n) \<and>
     P (rdp_xor_exp n) \<and> PL (rdp_xor_exp_loop n) \<and>
     P (rdp_ior_exp n) \<and> PL (rdp_ior_exp_loop n)"

lemma rdp_rules_induct:
  assumes base: "P no_fuel" "PL no_fuel_loop"
    and paren: "\<And>e. P e \<Longrightarrow> P (rdp_paren e)"
    and entry: "\<And>sub loop. P sub \<Longrightarrow> PL loop \<Longrightarrow> P (rdp_binary_exp sub loop)"
    and loop: "\<And>ops sub loop. ops \<subseteq> binary_operators \<Longrightarrow> P sub \<Longrightarrow> PL loop \<Longrightarrow>
                 PL (rdp_binary_loop ops sub loop)"
  shows "all_rules P PL n"
proof (induction n)
  case 0
  from base show ?case by (simp add: all_rules_def rdp_rules_0)
next
  case (Suc n)
  then have IH: "P (rdp_primary_exp n)" "P (rdp_unary_exp n)" "P (rdp_expression n)"
     "P (rdp_mult_exp n)" "PL (rdp_mult_exp_loop n)"
     "P (rdp_additive_exp n)" "PL (rdp_additive_exp_loop n)"
     "P (rdp_and_exp n)" "PL (rdp_and_exp_loop n)"
     "P (rdp_xor_exp n)" "PL (rdp_xor_exp_loop n)"
     "P (rdp_ior_exp n)" "PL (rdp_ior_exp_loop n)"
    by (simp_all add: all_rules_def)
  have ops: "{TOK_MULTIPLY, TOK_DIV, TOK_MOD} \<subseteq> binary_operators"
    "{TOK_PLUS, TOK_MINUS} \<subseteq> binary_operators" "{TOK_BWAND} \<subseteq> binary_operators"
    "{TOK_BWXOR} \<subseteq> binary_operators" "{TOK_BWOR} \<subseteq> binary_operators"
    by (simp_all add: binary_operators_def)
  show ?case
    unfolding all_rules_def rdp_rules_Suc rdp_loops_Suc
    by (intro conjI paren entry loop IH ops)
qed

section \<open>The cursor moves forward\<close>

lemma rdp_consume_blanks_Inr:
  "rdp_consume_blanks ctx = Inr c1 \<Longrightarrow>
     \<exists>k. c1 = ctx\<lparr>position := k\<rparr> \<and> position ctx \<le> k \<and>
         k < length (tokens ctx) \<and> type (tokens ctx ! k) \<noteq> TOK_SPACE \<and>
         (\<forall>i. position ctx \<le> i \<and> i < k \<longrightarrow> type (tokens ctx ! i) = TOK_SPACE)"
proof (induction ctx rule: rdp_consume_blanks.induct)
  case (1 ctx)
  show ?case
  proof (cases "position ctx < length (tokens ctx) \<and> type (tokens ctx ! position ctx) = TOK_SPACE")
    case True
    with "1.prems" have rec: "rdp_consume_blanks (ctx\<lparr>position := position ctx + 1\<rparr>) = Inr c1"
      by (simp add: rdp_consume_blanks.simps [of ctx])
    from True have a: "position ctx < length (tokens ctx)"
      and b: "type (tokens ctx ! position ctx) = TOK_SPACE" by simp_all
    from "1.IH" [OF a b rec] obtain k where
      ih: "c1 = ctx\<lparr>position := k\<rparr>" "Suc (position ctx) \<le> k"
      "k < length (tokens ctx)" "type (tokens ctx ! k) \<noteq> TOK_SPACE"
      "\<forall>i. Suc (position ctx) \<le> i \<and> i < k \<longrightarrow> type (tokens ctx ! i) = TOK_SPACE"
      by auto
    have "\<forall>i. position ctx \<le> i \<and> i < k \<longrightarrow> type (tokens ctx ! i) = TOK_SPACE"
    proof (intro allI impI)
      fix i assume i: "position ctx \<le> i \<and> i < k"
      show "type (tokens ctx ! i) = TOK_SPACE"
      proof (cases "i = position ctx")
        case True with b show ?thesis by simp
      next
        case False with i ih(5) show ?thesis by simp
      qed
    qed
    with ih show ?thesis by (intro exI [of _ k]) simp
  next
    case False
    with "1.prems" show ?thesis
      by (intro exI [of _ "position ctx"])
         (auto simp: rdp_consume_blanks.simps [of ctx] split: if_splits)
  qed
qed

lemma rdp_consume_blanks_Inl:
  "rdp_consume_blanks ctx = Inl e \<Longrightarrow> e = TokenOutOfBounds"
proof (induction ctx rule: rdp_consume_blanks.induct)
  case (1 ctx)
  then show ?case
    by (simp add: rdp_consume_blanks.simps [of ctx] split: if_splits)
qed

lemma rdp_peek_Inr:
  "rdp_peek ctx = Inr t \<Longrightarrow> position ctx < length (tokens ctx) \<and> t = tokens ctx ! position ctx"
  by (auto simp: rdp_peek_def split: if_splits)

lemma rdp_pop_Inr:
  "rdp_pop ctx = Inr (t, ctx') \<Longrightarrow>
     position ctx < length (tokens ctx) \<and> t = tokens ctx ! position ctx \<and>
     ctx' = ctx\<lparr>position := Suc (position ctx)\<rparr>"
  by (auto simp: rdp_pop_def rdp_peek_def rdp_consume_def split: if_splits)

lemma rdp_const_Inr:
  assumes "rdp_const ctx = Inr (a, ctx')"
  shows "\<exists>k. position ctx \<le> k \<and> k < length (tokens ctx) \<and>
             (\<forall>i. position ctx \<le> i \<and> i < k \<longrightarrow> type (tokens ctx ! i) = TOK_SPACE) \<and>
             type (tokens ctx ! k) = TOK_NUMBER \<and>
             a = ast_number (strtol (literal (tokens ctx ! k))) \<and>
             ctx' = ctx\<lparr>position := Suc k\<rparr>"
proof -
  from assms obtain c1 t where b: "rdp_consume_blanks ctx = Inr c1"
    and p: "rdp_pop c1 = Inr (t, ctx')" and t: "type t = TOK_NUMBER"
    and a: "a = ast_number (strtol (literal t))"
    by (auto simp: rdp_const_def xerror_def split: sum.splits if_splits)
  from rdp_consume_blanks_Inr [OF b] obtain k where k: "c1 = ctx\<lparr>position := k\<rparr>"
    "position ctx \<le> k" "k < length (tokens ctx)"
    "\<forall>i. position ctx \<le> i \<and> i < k \<longrightarrow> type (tokens ctx ! i) = TOK_SPACE" by blast
  from rdp_pop_Inr [OF p] k t a show ?thesis
    by (intro exI [of _ k]) simp
qed

definition adv :: "(rdp_t \<Rightarrow> parsed) \<Rightarrow> bool" where
  "adv g \<longleftrightarrow> (\<forall>ctx a ctx'. g ctx = Inr (a, ctx') \<longrightarrow>
     (\<exists>k. ctx' = ctx\<lparr>position := k\<rparr> \<and> position ctx < k \<and> k \<le> length (tokens ctx)))"

definition adv_loop :: "(node_t \<Rightarrow> rdp_t \<Rightarrow> parsed) \<Rightarrow> bool" where
  "adv_loop h \<longleftrightarrow> (\<forall>left ctx a ctx'. h left ctx = Inr (a, ctx') \<longrightarrow>
     (\<exists>k. ctx' = ctx\<lparr>position := k\<rparr> \<and> position ctx \<le> k \<and> k < length (tokens ctx)))"

lemma advD: "adv g \<Longrightarrow> g ctx = Inr (a, ctx') \<Longrightarrow>
    \<exists>k. ctx' = ctx\<lparr>position := k\<rparr> \<and> position ctx < k \<and> k \<le> length (tokens ctx)"
  by (simp add: adv_def)

lemma adv_loopD: "adv_loop h \<Longrightarrow> h left ctx = Inr (a, ctx') \<Longrightarrow>
    \<exists>k. ctx' = ctx\<lparr>position := k\<rparr> \<and> position ctx \<le> k \<and> k < length (tokens ctx)"
  by (simp add: adv_loop_def)

lemma adv_no_fuel: "adv no_fuel" "adv_loop no_fuel_loop"
  by (simp_all add: adv_def adv_loop_def no_fuel_def no_fuel_loop_def)

lemma adv_paren:
  assumes "adv e"
  shows "adv (rdp_paren e)"
  unfolding adv_def
proof (intro allI impI)
  fix ctx a ctx'
  assume r: "rdp_paren e ctx = Inr (a, ctx')"
  from r obtain c1 t where b: "rdp_consume_blanks ctx = Inr c1" and p: "rdp_peek c1 = Inr t"
    by (auto simp: rdp_paren_def split: sum.splits)
  from rdp_consume_blanks_Inr [OF b] obtain k1 where k1: "c1 = ctx\<lparr>position := k1\<rparr>"
    "position ctx \<le> k1" "k1 < length (tokens ctx)" by blast
  show "\<exists>k. ctx' = ctx\<lparr>position := k\<rparr> \<and> position ctx < k \<and> k \<le> length (tokens ctx)"
  proof (cases "type t = TOK_LPAREN")
    case True
    with r b p obtain c2 c3 t3 where e: "e (rdp_consume c1) = Inr (a, c2)"
      and b2: "rdp_consume_blanks c2 = Inr c3" and p3: "rdp_pop c3 = Inr (t3, ctx')"
      by (auto simp: rdp_paren_def xerror_def split: sum.splits if_splits)
    from advD [OF assms e] k1 obtain k2 where k2: "c2 = ctx\<lparr>position := k2\<rparr>" "k1 < k2"
      "k2 \<le> length (tokens ctx)" by (auto simp: rdp_consume_def)
    from rdp_consume_blanks_Inr [OF b2] k2 obtain k3 where k3: "c3 = ctx\<lparr>position := k3\<rparr>"
      "k2 \<le> k3" "k3 < length (tokens ctx)" by auto
    from rdp_pop_Inr [OF p3] k3 have "ctx' = ctx\<lparr>position := Suc k3\<rparr>" by simp
    with k1 k2 k3 show ?thesis by (intro exI [of _ "Suc k3"]) simp
  next
    case False
    with r b p have "rdp_const c1 = Inr (a, ctx')" by (simp add: rdp_paren_def)
    from rdp_const_Inr [OF this] k1 obtain k where "k1 \<le> k" "k < length (tokens ctx)"
      "ctx' = ctx\<lparr>position := Suc k\<rparr>" by auto
    with k1 show ?thesis by (intro exI [of _ "Suc k"]) simp
  qed
qed

lemma adv_binary_exp:
  assumes "adv sub" "adv_loop loop"
  shows "adv (rdp_binary_exp sub loop)"
  unfolding adv_def
proof (intro allI impI)
  fix ctx a ctx'
  assume r: "rdp_binary_exp sub loop ctx = Inr (a, ctx')"
  then obtain left c1 where s: "sub ctx = Inr (left, c1)" and l: "loop left c1 = Inr (a, ctx')"
    by (auto simp: rdp_binary_exp_def split: sum.splits)
  from advD [OF assms(1) s] obtain k1 where k1: "c1 = ctx\<lparr>position := k1\<rparr>" "position ctx < k1" by blast
  from adv_loopD [OF assms(2) l] k1 obtain k where "ctx' = ctx\<lparr>position := k\<rparr>" "k1 \<le> k"
    "k < length (tokens ctx)" by auto
  with k1 show "\<exists>k. ctx' = ctx\<lparr>position := k\<rparr> \<and> position ctx < k \<and> k \<le> length (tokens ctx)"
    by (intro exI [of _ k]) simp
qed

lemma adv_binary_loop:
  assumes "adv sub" "adv_loop loop"
  shows "adv_loop (rdp_binary_loop ops sub loop)"
  unfolding adv_loop_def
proof (intro allI impI)
  fix left ctx a ctx'
  assume r: "rdp_binary_loop ops sub loop left ctx = Inr (a, ctx')"
  from r obtain c1 t where b: "rdp_consume_blanks ctx = Inr c1" and p: "rdp_peek c1 = Inr t"
    by (auto simp: rdp_binary_loop_def split: sum.splits)
  from rdp_consume_blanks_Inr [OF b] obtain k1 where k1: "c1 = ctx\<lparr>position := k1\<rparr>"
    "position ctx \<le> k1" "k1 < length (tokens ctx)" by blast
  show "\<exists>k. ctx' = ctx\<lparr>position := k\<rparr> \<and> position ctx \<le> k \<and> k < length (tokens ctx)"
  proof (cases "type t \<in> ops")
    case True
    with r b p obtain right c2 where s: "sub (rdp_consume c1) = Inr (right, c2)"
      and l: "loop (ast_binary_operator (type t) left right) c2 = Inr (a, ctx')"
      by (auto simp: rdp_binary_loop_def split: sum.splits)
    from advD [OF assms(1) s] k1 obtain k2 where k2: "c2 = ctx\<lparr>position := k2\<rparr>" "k1 < k2"
      by (auto simp: rdp_consume_def)
    from adv_loopD [OF assms(2) l] k2 obtain k where "ctx' = ctx\<lparr>position := k\<rparr>" "k2 \<le> k"
      "k < length (tokens ctx)" by auto
    with k1 k2 show ?thesis by (intro exI [of _ k]) simp
  next
    case False
    with r b p have "ctx' = c1" by (simp add: rdp_binary_loop_def)
    with k1 show ?thesis by (intro exI [of _ k1]) simp
  qed
qed

lemma adv_all: "all_rules adv adv_loop n"
  by (rule rdp_rules_induct) (simp_all add: adv_no_fuel adv_paren adv_binary_exp adv_binary_loop)

lemma rdp_rules_induct_adv:
  assumes base: "P no_fuel" "PL no_fuel_loop"
    and paren: "\<And>e. adv e \<Longrightarrow> P e \<Longrightarrow> P (rdp_paren e)"
    and entry: "\<And>sub loop. adv sub \<Longrightarrow> adv_loop loop \<Longrightarrow> P sub \<Longrightarrow> PL loop \<Longrightarrow>
                  P (rdp_binary_exp sub loop)"
    and loop: "\<And>ops sub loop. ops \<subseteq> binary_operators \<Longrightarrow> adv sub \<Longrightarrow> adv_loop loop \<Longrightarrow>
                  P sub \<Longrightarrow> PL loop \<Longrightarrow> PL (rdp_binary_loop ops sub loop)"
  shows "all_rules P PL n"
proof -
  have "all_rules (\<lambda>g. adv g \<and> P g) (\<lambda>h. adv_loop h \<and> PL h) n"
  proof (rule rdp_rules_induct)
    show "adv no_fuel \<and> P no_fuel" "adv_loop no_fuel_loop \<and> PL no_fuel_loop"
      using base adv_no_fuel by simp_all
  next
    fix e assume "adv e \<and> P e"
    then show "adv (rdp_paren e) \<and> P (rdp_paren e)" using adv_paren paren by simp
  next
    fix sub loop assume "adv sub \<and> P sub" "adv_loop loop \<and> PL loop"
    then show "adv (rdp_binary_exp sub loop) \<and> P (rdp_binary_exp sub loop)"
      using adv_binary_exp entry by simp
  next
    fix ops sub loop
    assume "ops \<subseteq> binary_operators" "adv sub \<and> P sub" "adv_loop loop \<and> PL loop"
    then show "adv_loop (rdp_binary_loop ops sub loop) \<and> PL (rdp_binary_loop ops sub loop)"
      using adv_binary_loop loop by simp
  qed
  then show ?thesis by (simp add: all_rules_def)
qed


section \<open>The trees the parser builds\<close>

text \<open>
  \<open>ast_ok\<close>: a leaf is marked as a terminal, has the id \<open>TOK_NUMBER\<close> and a value of a
  \<^verbatim>\<open>long\<close>; an inner node is a binary node with one of the eight operators and two such
  trees as children; there is no unary node.
\<close>

fun ast_ok :: "node_t \<Rightarrow> bool" where
  "ast_ok (Leaf v) = (is_term (Leaf v) \<and> node_id (Leaf v) = TOK_NUMBER \<and> LONG_MIN \<le> v \<and> v \<le> LONG_MAX)"
| "ast_ok (Unary ident operand) = False"
| "ast_ok (Binary ident left right) =
     (\<not> is_term (Binary ident left right) \<and> ident \<in> binary_operators \<and> ast_ok left \<and> ast_ok right)"

definition builds_ok :: "(rdp_t \<Rightarrow> parsed) \<Rightarrow> bool" where
  "builds_ok g \<longleftrightarrow> (\<forall>ctx a ctx'. g ctx = Inr (a, ctx') \<longrightarrow> ast_ok a)"

definition builds_ok_loop :: "(node_t \<Rightarrow> rdp_t \<Rightarrow> parsed) \<Rightarrow> bool" where
  "builds_ok_loop h \<longleftrightarrow> (\<forall>left ctx a ctx'. ast_ok left \<longrightarrow> h left ctx = Inr (a, ctx') \<longrightarrow> ast_ok a)"

lemma strtol_range: "LONG_MIN \<le> strtol s \<and> strtol s \<le> LONG_MAX"
  by (simp add: strtol_def Let_def LONG_MIN_def LONG_MAX_def)

lemma builds_ok_paren:
  assumes "builds_ok e"
  shows "builds_ok (rdp_paren e)"
  unfolding builds_ok_def
proof (intro allI impI)
  fix ctx a ctx'
  assume r: "rdp_paren e ctx = Inr (a, ctx')"
  then obtain c1 t where b: "rdp_consume_blanks ctx = Inr c1" and p: "rdp_peek c1 = Inr t"
    by (auto simp: rdp_paren_def split: sum.splits)
  show "ast_ok a"
  proof (cases "type t = TOK_LPAREN")
    case True
    with r b p obtain c2 where "e (rdp_consume c1) = Inr (a, c2)"
      by (auto simp: rdp_paren_def xerror_def split: sum.splits if_splits)
    with assms show ?thesis by (auto simp: builds_ok_def)
  next
    case False
    with r b p have "rdp_const c1 = Inr (a, ctx')" by (simp add: rdp_paren_def)
    from rdp_const_Inr [OF this] show ?thesis
      using strtol_range by (auto simp: ast_number_def)
  qed
qed

lemma builds_ok_binary_exp:
  assumes "builds_ok sub" "builds_ok_loop loop"
  shows "builds_ok (rdp_binary_exp sub loop)"
  using assms unfolding builds_ok_def builds_ok_loop_def rdp_binary_exp_def
  by (fastforce split: sum.splits)

lemma builds_ok_binary_loop:
  assumes "ops \<subseteq> binary_operators" "builds_ok sub" "builds_ok_loop loop"
  shows "builds_ok_loop (rdp_binary_loop ops sub loop)"
  unfolding builds_ok_loop_def
proof (intro allI impI)
  fix left ctx a ctx'
  assume left: "ast_ok left" and r: "rdp_binary_loop ops sub loop left ctx = Inr (a, ctx')"
  from r obtain c1 t where b: "rdp_consume_blanks ctx = Inr c1" and p: "rdp_peek c1 = Inr t"
    by (auto simp: rdp_binary_loop_def split: sum.splits)
  show "ast_ok a"
  proof (cases "type t \<in> ops")
    case True
    with r b p obtain right c2 where s: "sub (rdp_consume c1) = Inr (right, c2)"
      and l: "loop (ast_binary_operator (type t) left right) c2 = Inr (a, ctx')"
      by (auto simp: rdp_binary_loop_def split: sum.splits)
    from assms(2) s have "ast_ok right" by (auto simp: builds_ok_def)
    with left True assms(1) have "ast_ok (ast_binary_operator (type t) left right)"
      by (auto simp: ast_binary_operator_def)
    with assms(3) l show ?thesis by (auto simp: builds_ok_loop_def)
  next
    case False
    with r b p left show ?thesis by (simp add: rdp_binary_loop_def)
  qed
qed

lemma builds_ok_all: "all_rules builds_ok builds_ok_loop n"
  by (rule rdp_rules_induct)
     (simp_all add: builds_ok_paren builds_ok_binary_exp builds_ok_binary_loop,
      simp_all add: builds_ok_def builds_ok_loop_def no_fuel_def no_fuel_loop_def)

section \<open>No read outside of the tokens\<close>

text \<open>The last token is the end-of-input token, and the cursor is on a token.\<close>

definition ends_eof :: "rdp_t \<Rightarrow> bool" where
  "ends_eof ctx \<longleftrightarrow>
     position ctx < length (tokens ctx) \<and> type (tokens ctx ! (length (tokens ctx) - 1)) = TOK_EOF"

lemma ends_eof_step:
  assumes "ends_eof (ctx\<lparr>position := k\<rparr>)" "type (tokens ctx ! k) \<noteq> TOK_EOF"
  shows "ends_eof (ctx\<lparr>position := Suc k\<rparr>)"
proof -
  from assms have "k \<noteq> length (tokens ctx) - 1" by (auto simp: ends_eof_def)
  with assms(1) show ?thesis by (auto simp: ends_eof_def)
qed

lemma ends_eof_later:
  assumes "ends_eof ctx" "k < length (tokens ctx)"
  shows "ends_eof (ctx\<lparr>position := k\<rparr>)"
  using assms by (simp add: ends_eof_def)

lemma ends_eof_self: "ends_eof ctx \<Longrightarrow> ends_eof (ctx\<lparr>position := position ctx\<rparr>)"
  by (simp add: ends_eof_def)

lemma rdp_consume_blanks_ends_eof:
  "ends_eof ctx \<Longrightarrow> \<exists>c1. rdp_consume_blanks ctx = Inr c1"
proof (induction ctx rule: rdp_consume_blanks.induct)
  case (1 ctx)
  show ?case
  proof (cases "type (tokens ctx ! position ctx) = TOK_SPACE")
    case True
    from "1.prems" have a: "position ctx < length (tokens ctx)" by (simp add: ends_eof_def)
    from ends_eof_step [OF ends_eof_self [OF "1.prems"]] True
    have "ends_eof (ctx\<lparr>position := position ctx + 1\<rparr>)" by simp
    from "1.IH" [OF a True this] a True show ?thesis
      by (simp add: rdp_consume_blanks.simps [of ctx])
  next
    case False
    with "1.prems" show ?thesis
      by (simp add: rdp_consume_blanks.simps [of ctx] ends_eof_def)
  qed
qed

definition in_bounds :: "(rdp_t \<Rightarrow> parsed) \<Rightarrow> bool" where
  "in_bounds g \<longleftrightarrow> (\<forall>ctx. ends_eof ctx \<longrightarrow>
     g ctx \<noteq> Inl TokenOutOfBounds \<and> (\<forall>a ctx'. g ctx = Inr (a, ctx') \<longrightarrow> ends_eof ctx'))"

definition in_bounds_loop :: "(node_t \<Rightarrow> rdp_t \<Rightarrow> parsed) \<Rightarrow> bool" where
  "in_bounds_loop h \<longleftrightarrow> (\<forall>left ctx. ends_eof ctx \<longrightarrow>
     h left ctx \<noteq> Inl TokenOutOfBounds \<and> (\<forall>a ctx'. h left ctx = Inr (a, ctx') \<longrightarrow> ends_eof ctx'))"

lemma rdp_const_in_bounds:
  assumes "ends_eof ctx"
  shows "rdp_const ctx \<noteq> Inl TokenOutOfBounds \<and>
         (\<forall>a ctx'. rdp_const ctx = Inr (a, ctx') \<longrightarrow> ends_eof ctx')"
proof -
  from rdp_consume_blanks_ends_eof [OF assms] obtain c1 where b: "rdp_consume_blanks ctx = Inr c1" ..
  from rdp_consume_blanks_Inr [OF b] obtain k where k: "c1 = ctx\<lparr>position := k\<rparr>"
    "k < length (tokens ctx)" by blast
  have e1: "ends_eof (ctx\<lparr>position := k\<rparr>)" using ends_eof_later [OF assms k(2)] .
  have pop: "rdp_pop c1 = Inr (tokens ctx ! k, ctx\<lparr>position := Suc k\<rparr>)"
    using k by (simp add: rdp_pop_def rdp_peek_def rdp_consume_def)
  show ?thesis
  proof (cases "type (tokens ctx ! k) = TOK_NUMBER")
    case True
    then have "ends_eof (ctx\<lparr>position := Suc k\<rparr>)" using ends_eof_step [OF e1] by simp
    with b pop True show ?thesis by (simp add: rdp_const_def)
  next
    case False
    with b pop show ?thesis by (simp add: rdp_const_def xerror_def)
  qed
qed

lemma in_bounds_paren:
  assumes "in_bounds e"
  shows "in_bounds (rdp_paren e)"
  unfolding in_bounds_def
proof (intro allI impI)
  fix ctx assume s: "ends_eof ctx"
  from rdp_consume_blanks_ends_eof [OF s] obtain c1 where b: "rdp_consume_blanks ctx = Inr c1" ..
  from rdp_consume_blanks_Inr [OF b] obtain k where k: "c1 = ctx\<lparr>position := k\<rparr>"
    "k < length (tokens ctx)" by blast
  have e1: "ends_eof c1" using ends_eof_later [OF s k(2)] k(1) by simp
  have p: "rdp_peek c1 = Inr (tokens ctx ! k)" using k by (simp add: rdp_peek_def)
  show "rdp_paren e ctx \<noteq> Inl TokenOutOfBounds \<and>
        (\<forall>a ctx'. rdp_paren e ctx = Inr (a, ctx') \<longrightarrow> ends_eof ctx')"
  proof (cases "type (tokens ctx ! k) = TOK_LPAREN")
    case True
    have e2: "ends_eof (rdp_consume c1)"
      using ends_eof_step [where ctx = ctx and k = k] e1 k True by (simp add: rdp_consume_def)
    from assms e2 have E: "e (rdp_consume c1) \<noteq> Inl TokenOutOfBounds"
      "\<And>a c2. e (rdp_consume c1) = Inr (a, c2) \<Longrightarrow> ends_eof c2"
      by (auto simp: in_bounds_def)
    show ?thesis
    proof (cases "e (rdp_consume c1)")
      case (Inl err)
      with E(1) b p True show ?thesis by (simp add: rdp_paren_def)
    next
      case (Inr q)
      obtain a c2 where q: "q = (a, c2)" by (cases q)
      from E(2) Inr q have e3: "ends_eof c2" by simp
      from rdp_consume_blanks_ends_eof [OF e3] obtain c3 where b3: "rdp_consume_blanks c2 = Inr c3" ..
      from rdp_consume_blanks_Inr [OF b3] obtain k3 where k3: "c3 = c2\<lparr>position := k3\<rparr>"
        "k3 < length (tokens c2)" by blast
      have e4: "ends_eof (c2\<lparr>position := k3\<rparr>)" using ends_eof_later [OF e3 k3(2)] .
      have pop: "rdp_pop c3 = Inr (tokens c2 ! k3, c2\<lparr>position := Suc k3\<rparr>)"
        using k3 by (simp add: rdp_pop_def rdp_peek_def rdp_consume_def)
      show ?thesis
      proof (cases "type (tokens c2 ! k3) = TOK_RPAREN")
        case T: True
        then have "ends_eof (c2\<lparr>position := Suc k3\<rparr>)" using ends_eof_step [OF e4] by simp
        with b p True Inr q b3 pop T show ?thesis by (simp add: rdp_paren_def)
      next
        case False
        with b p True Inr q b3 pop show ?thesis by (simp add: rdp_paren_def xerror_def)
      qed
    qed
  next
    case False
    with b p have "rdp_paren e ctx = rdp_const c1" by (simp add: rdp_paren_def)
    with rdp_const_in_bounds [OF e1] show ?thesis by simp
  qed
qed

lemma in_bounds_binary_exp:
  assumes "in_bounds sub" "in_bounds_loop loop"
  shows "in_bounds (rdp_binary_exp sub loop)"
  unfolding in_bounds_def
proof (intro allI impI)
  fix ctx assume s: "ends_eof ctx"
  from assms(1) s have E: "sub ctx \<noteq> Inl TokenOutOfBounds"
    "\<And>a c1. sub ctx = Inr (a, c1) \<Longrightarrow> ends_eof c1"
    by (auto simp: in_bounds_def)
  show "rdp_binary_exp sub loop ctx \<noteq> Inl TokenOutOfBounds \<and>
        (\<forall>a ctx'. rdp_binary_exp sub loop ctx = Inr (a, ctx') \<longrightarrow> ends_eof ctx')"
  proof (cases "sub ctx")
    case (Inl err)
    with E(1) show ?thesis by (simp add: rdp_binary_exp_def)
  next
    case (Inr q)
    obtain left c1 where q: "q = (left, c1)" by (cases q)
    from E(2) Inr q have "ends_eof c1" by simp
    with assms(2) Inr q show ?thesis
      by (simp add: rdp_binary_exp_def in_bounds_loop_def)
  qed
qed

lemma in_bounds_binary_loop:
  assumes "ops \<subseteq> binary_operators" "in_bounds sub" "in_bounds_loop loop"
  shows "in_bounds_loop (rdp_binary_loop ops sub loop)"
  unfolding in_bounds_loop_def
proof (intro allI impI)
  fix left ctx assume s: "ends_eof ctx"
  from rdp_consume_blanks_ends_eof [OF s] obtain c1 where b: "rdp_consume_blanks ctx = Inr c1" ..
  from rdp_consume_blanks_Inr [OF b] obtain k where k: "c1 = ctx\<lparr>position := k\<rparr>"
    "k < length (tokens ctx)" by blast
  have e1: "ends_eof c1" using ends_eof_later [OF s k(2)] k(1) by simp
  have p: "rdp_peek c1 = Inr (tokens ctx ! k)" using k by (simp add: rdp_peek_def)
  show "rdp_binary_loop ops sub loop left ctx \<noteq> Inl TokenOutOfBounds \<and>
        (\<forall>a ctx'. rdp_binary_loop ops sub loop left ctx = Inr (a, ctx') \<longrightarrow> ends_eof ctx')"
  proof (cases "type (tokens ctx ! k) \<in> ops")
    case True
    with assms(1) have "type (tokens ctx ! k) \<noteq> TOK_EOF" by (auto simp: binary_operators_def)
    then have e2: "ends_eof (rdp_consume c1)"
      using ends_eof_step [where ctx = ctx and k = k] e1 k by (simp add: rdp_consume_def)
    from assms(2) e2 have E: "sub (rdp_consume c1) \<noteq> Inl TokenOutOfBounds"
      "\<And>a c2. sub (rdp_consume c1) = Inr (a, c2) \<Longrightarrow> ends_eof c2"
      by (auto simp: in_bounds_def)
    show ?thesis
    proof (cases "sub (rdp_consume c1)")
      case (Inl err)
      with E(1) b p True show ?thesis by (simp add: rdp_binary_loop_def)
    next
      case (Inr q)
      obtain right c2 where q: "q = (right, c2)" by (cases q)
      from E(2) Inr q have e3: "ends_eof c2" by simp
      with assms(3) b p True Inr q show ?thesis
        by (simp add: rdp_binary_loop_def in_bounds_loop_def)
    qed
  next
    case False
    with b p e1 show ?thesis by (simp add: rdp_binary_loop_def)
  qed
qed

lemma in_bounds_no_fuel: "in_bounds no_fuel" "in_bounds_loop no_fuel_loop"
  by (simp_all add: in_bounds_def in_bounds_loop_def no_fuel_def no_fuel_loop_def)

lemma in_bounds_all: "all_rules in_bounds in_bounds_loop n"
  by (rule rdp_rules_induct)
     (rule in_bounds_no_fuel in_bounds_paren in_bounds_binary_exp in_bounds_binary_loop; assumption)+

section \<open>Fuel\<close>

text \<open>More fuel does not change a result.\<close>

definition extends :: "(rdp_t \<Rightarrow> parsed) \<Rightarrow> (rdp_t \<Rightarrow> parsed) \<Rightarrow> bool" where
  "extends g g' \<longleftrightarrow> (\<forall>ctx. g ctx \<noteq> Inl OutOfFuel \<longrightarrow> g' ctx = g ctx)"

definition extends_loop ::
  "(node_t \<Rightarrow> rdp_t \<Rightarrow> parsed) \<Rightarrow> (node_t \<Rightarrow> rdp_t \<Rightarrow> parsed) \<Rightarrow> bool" where
  "extends_loop h h' \<longleftrightarrow> (\<forall>left ctx. h left ctx \<noteq> Inl OutOfFuel \<longrightarrow> h' left ctx = h left ctx)"

lemma extends_no_fuel: "extends no_fuel g" "extends_loop no_fuel_loop h"
  by (simp_all add: extends_def extends_loop_def no_fuel_def no_fuel_loop_def)

lemma extends_refl: "extends g g" "extends_loop h h"
  by (simp_all add: extends_def extends_loop_def)

lemma extends_trans: "extends g g' \<Longrightarrow> extends g' g'' \<Longrightarrow> extends g g''"
  by (simp add: extends_def)

lemma extends_loop_trans: "extends_loop h h' \<Longrightarrow> extends_loop h' h'' \<Longrightarrow> extends_loop h h''"
  by (simp add: extends_loop_def)

lemma extends_paren:
  assumes "extends e e'"
  shows "extends (rdp_paren e) (rdp_paren e')"
  unfolding extends_def
proof (intro allI impI)
  fix ctx assume nf: "rdp_paren e ctx \<noteq> Inl OutOfFuel"
  show "rdp_paren e' ctx = rdp_paren e ctx"
  proof (cases "rdp_consume_blanks ctx")
    case (Inl err) then show ?thesis by (simp add: rdp_paren_def)
  next
    case b: (Inr c1)
    show ?thesis
    proof (cases "rdp_peek c1")
      case (Inl err) with b show ?thesis by (simp add: rdp_paren_def)
    next
      case p: (Inr t)
      show ?thesis
      proof (cases "type t = TOK_LPAREN")
        case True
        with nf b p have "e (rdp_consume c1) \<noteq> Inl OutOfFuel"
          by (auto simp: rdp_paren_def)
        with assms have "e' (rdp_consume c1) = e (rdp_consume c1)" by (simp add: extends_def)
        with b p True show ?thesis by (simp add: rdp_paren_def)
      next
        case False
        with b p show ?thesis by (simp add: rdp_paren_def)
      qed
    qed
  qed
qed

lemma extends_binary_exp:
  assumes "extends sub sub'" "extends_loop loop loop'"
  shows "extends (rdp_binary_exp sub loop) (rdp_binary_exp sub' loop')"
  unfolding extends_def
proof (intro allI impI)
  fix ctx assume nf: "rdp_binary_exp sub loop ctx \<noteq> Inl OutOfFuel"
  then have "sub ctx \<noteq> Inl OutOfFuel" by (auto simp: rdp_binary_exp_def)
  with assms(1) have s: "sub' ctx = sub ctx" by (simp add: extends_def)
  show "rdp_binary_exp sub' loop' ctx = rdp_binary_exp sub loop ctx"
  proof (cases "sub ctx")
    case (Inl err) with s show ?thesis by (simp add: rdp_binary_exp_def)
  next
    case (Inr q)
    obtain left c1 where q: "q = (left, c1)" by (cases q)
    from nf Inr q have "loop left c1 \<noteq> Inl OutOfFuel" by (simp add: rdp_binary_exp_def)
    with assms(2) have "loop' left c1 = loop left c1" by (simp add: extends_loop_def)
    with s Inr q show ?thesis by (simp add: rdp_binary_exp_def)
  qed
qed

lemma extends_binary_loop:
  assumes "extends sub sub'" "extends_loop loop loop'"
  shows "extends_loop (rdp_binary_loop ops sub loop) (rdp_binary_loop ops sub' loop')"
  unfolding extends_loop_def
proof (intro allI impI)
  fix left ctx assume nf: "rdp_binary_loop ops sub loop left ctx \<noteq> Inl OutOfFuel"
  show "rdp_binary_loop ops sub' loop' left ctx = rdp_binary_loop ops sub loop left ctx"
  proof (cases "rdp_consume_blanks ctx")
    case (Inl err) then show ?thesis by (simp add: rdp_binary_loop_def)
  next
    case b: (Inr c1)
    show ?thesis
    proof (cases "rdp_peek c1")
      case (Inl err) with b show ?thesis by (simp add: rdp_binary_loop_def)
    next
      case p: (Inr t)
      show ?thesis
      proof (cases "type t \<in> ops")
        case True
        with nf b p have "sub (rdp_consume c1) \<noteq> Inl OutOfFuel"
          by (auto simp: rdp_binary_loop_def)
        with assms(1) have s: "sub' (rdp_consume c1) = sub (rdp_consume c1)"
          by (simp add: extends_def)
        show ?thesis
        proof (cases "sub (rdp_consume c1)")
          case (Inl err) with s b p True show ?thesis by (simp add: rdp_binary_loop_def)
        next
          case (Inr q)
          obtain right c2 where q: "q = (right, c2)" by (cases q)
          from nf b p True Inr q
          have "loop (ast_binary_operator (type t) left right) c2 \<noteq> Inl OutOfFuel"
            by (simp add: rdp_binary_loop_def)
          with assms(2) have "loop' (ast_binary_operator (type t) left right) c2 =
              loop (ast_binary_operator (type t) left right) c2" by (simp add: extends_loop_def)
          with s b p True Inr q show ?thesis by (simp add: rdp_binary_loop_def)
        qed
      next
        case False
        with b p show ?thesis by (simp add: rdp_binary_loop_def)
      qed
    qed
  qed
qed

definition all_rules2 ::
  "((rdp_t \<Rightarrow> parsed) \<Rightarrow> (rdp_t \<Rightarrow> parsed) \<Rightarrow> bool) \<Rightarrow>
   ((node_t \<Rightarrow> rdp_t \<Rightarrow> parsed) \<Rightarrow> (node_t \<Rightarrow> rdp_t \<Rightarrow> parsed) \<Rightarrow> bool) \<Rightarrow> nat \<Rightarrow> nat \<Rightarrow> bool" where
  "all_rules2 R RL n m \<longleftrightarrow>
     R (rdp_primary_exp n) (rdp_primary_exp m) \<and> R (rdp_unary_exp n) (rdp_unary_exp m) \<and>
     R (rdp_expression n) (rdp_expression m) \<and>
     R (rdp_mult_exp n) (rdp_mult_exp m) \<and> RL (rdp_mult_exp_loop n) (rdp_mult_exp_loop m) \<and>
     R (rdp_additive_exp n) (rdp_additive_exp m) \<and>
     RL (rdp_additive_exp_loop n) (rdp_additive_exp_loop m) \<and>
     R (rdp_and_exp n) (rdp_and_exp m) \<and> RL (rdp_and_exp_loop n) (rdp_and_exp_loop m) \<and>
     R (rdp_xor_exp n) (rdp_xor_exp m) \<and> RL (rdp_xor_exp_loop n) (rdp_xor_exp_loop m) \<and>
     R (rdp_ior_exp n) (rdp_ior_exp m) \<and> RL (rdp_ior_exp_loop n) (rdp_ior_exp_loop m)"

lemma extends_Suc: "all_rules2 extends extends_loop n (Suc n)"
proof (induction n)
  case 0
  show ?case by (simp add: all_rules2_def rdp_rules_0 extends_no_fuel)
next
  case (Suc n)
  then have IH:
    "extends (rdp_primary_exp n) (rdp_primary_exp (Suc n))"
    "extends (rdp_unary_exp n) (rdp_unary_exp (Suc n))"
    "extends (rdp_expression n) (rdp_expression (Suc n))"
    "extends (rdp_mult_exp n) (rdp_mult_exp (Suc n))"
    "extends_loop (rdp_mult_exp_loop n) (rdp_mult_exp_loop (Suc n))"
    "extends (rdp_additive_exp n) (rdp_additive_exp (Suc n))"
    "extends_loop (rdp_additive_exp_loop n) (rdp_additive_exp_loop (Suc n))"
    "extends (rdp_and_exp n) (rdp_and_exp (Suc n))"
    "extends_loop (rdp_and_exp_loop n) (rdp_and_exp_loop (Suc n))"
    "extends (rdp_xor_exp n) (rdp_xor_exp (Suc n))"
    "extends_loop (rdp_xor_exp_loop n) (rdp_xor_exp_loop (Suc n))"
    "extends (rdp_ior_exp n) (rdp_ior_exp (Suc n))"
    "extends_loop (rdp_ior_exp_loop n) (rdp_ior_exp_loop (Suc n))"
    by (simp_all add: all_rules2_def)
  show ?case
    unfolding all_rules2_def rdp_rules_Suc [of "Suc n"] rdp_loops_Suc [of "Suc n"]
      rdp_rules_Suc [of n] rdp_loops_Suc [of n]
    by (intro conjI extends_paren extends_binary_exp extends_binary_loop
          IH [unfolded rdp_rules_Suc rdp_loops_Suc])
qed

lemma extends_le: "n \<le> m \<Longrightarrow> all_rules2 extends extends_loop n m"
proof (induction m)
  case 0
  then show ?case by (simp add: all_rules2_def extends_refl)
next
  case (Suc m)
  show ?case
  proof (cases "n = Suc m")
    case True
    then show ?thesis by (simp add: all_rules2_def extends_refl)
  next
    case False
    with Suc have a: "all_rules2 extends extends_loop n m" by simp
    note b = extends_Suc [of m]
    from a b show ?thesis
      unfolding all_rules2_def
      by (meson extends_trans extends_loop_trans)
  qed
qed

lemma rdp_expression_mono:
  "rdp_expression n ctx = Inr r \<Longrightarrow> n \<le> m \<Longrightarrow> rdp_expression m ctx = Inr r"
  using extends_le [of n m] by (simp add: all_rules2_def extends_def)

text \<open>Where a rule can run out of fuel.\<close>

lemma rdp_const_fueled: "rdp_const ctx \<noteq> Inl OutOfFuel"
  by (auto simp: rdp_const_def rdp_pop_def rdp_peek_def xerror_def
        split: sum.splits if_splits dest: rdp_consume_blanks_Inl)

lemma rdp_paren_OutOfFuel:
  assumes "rdp_paren e ctx = Inl OutOfFuel"
  shows "\<exists>c1 t. rdp_consume_blanks ctx = Inr c1 \<and> rdp_peek c1 = Inr t \<and>
           type t = TOK_LPAREN \<and> e (rdp_consume c1) = Inl OutOfFuel"
proof (cases "rdp_consume_blanks ctx")
  case (Inl err)
  with assms rdp_consume_blanks_Inl [OF Inl] show ?thesis by (simp add: rdp_paren_def)
next
  case b: (Inr c1)
  show ?thesis
  proof (cases "rdp_peek c1")
    case (Inl err)
    with assms b show ?thesis by (simp add: rdp_paren_def rdp_peek_def split: if_splits)
  next
    case p: (Inr t)
    show ?thesis
    proof (cases "type t = TOK_LPAREN")
      case True
      show ?thesis
      proof (cases "e (rdp_consume c1)")
        case (Inl err)
        with assms b p True show ?thesis by (simp add: rdp_paren_def)
      next
        case (Inr q)
        obtain a c2 where q: "q = (a, c2)" by (cases q)
        from assms b p True Inr q have False
          by (auto simp: rdp_paren_def rdp_pop_def rdp_peek_def xerror_def
                split: sum.splits if_splits dest: rdp_consume_blanks_Inl)
        then show ?thesis ..
      qed
    next
      case False
      with assms b p rdp_const_fueled [of c1] show ?thesis by (simp add: rdp_paren_def)
    qed
  qed
qed

lemma rdp_binary_exp_OutOfFuel:
  assumes "rdp_binary_exp sub loop ctx = Inl OutOfFuel"
  shows "sub ctx = Inl OutOfFuel \<or>
         (\<exists>left c1. sub ctx = Inr (left, c1) \<and> loop left c1 = Inl OutOfFuel)"
  using assms by (auto simp: rdp_binary_exp_def split: sum.splits)

lemma rdp_binary_loop_OutOfFuel:
  assumes "rdp_binary_loop ops sub loop left ctx = Inl OutOfFuel"
  shows "\<exists>c1 t. rdp_consume_blanks ctx = Inr c1 \<and> rdp_peek c1 = Inr t \<and> type t \<in> ops \<and>
           (sub (rdp_consume c1) = Inl OutOfFuel \<or>
            (\<exists>right c2. sub (rdp_consume c1) = Inr (right, c2) \<and>
               loop (ast_binary_operator (type t) left right) c2 = Inl OutOfFuel))"
proof (cases "rdp_consume_blanks ctx")
  case (Inl err)
  with assms rdp_consume_blanks_Inl [OF Inl] show ?thesis by (simp add: rdp_binary_loop_def)
next
  case b: (Inr c1)
  show ?thesis
  proof (cases "rdp_peek c1")
    case (Inl err)
    with assms b show ?thesis by (simp add: rdp_binary_loop_def rdp_peek_def split: if_splits)
  next
    case p: (Inr t)
    with assms b show ?thesis
      by (auto simp: rdp_binary_loop_def split: sum.splits if_splits)
  qed
qed

text \<open>The tokens from the cursor on, and the fuel that is enough for them.\<close>

definition rest :: "rdp_t \<Rightarrow> nat" where
  "rest ctx = length (tokens ctx) - position ctx"

definition fueled :: "nat \<Rightarrow> nat \<Rightarrow> (rdp_t \<Rightarrow> parsed) \<Rightarrow> bool" where
  "fueled d n g \<longleftrightarrow> (\<forall>ctx. 8 * rest ctx + d \<le> n \<longrightarrow> g ctx \<noteq> Inl OutOfFuel)"

definition fueled_loop :: "nat \<Rightarrow> (node_t \<Rightarrow> rdp_t \<Rightarrow> parsed) \<Rightarrow> bool" where
  "fueled_loop n h \<longleftrightarrow> (\<forall>left ctx. 8 * rest ctx + 1 \<le> n \<longrightarrow> h left ctx \<noteq> Inl OutOfFuel)"

lemma fueled_0: "0 < d \<Longrightarrow> fueled d 0 g" "fueled_loop 0 h"
  by (simp_all add: fueled_def fueled_loop_def)

lemma fueled_Suc: "fueled d n g \<Longrightarrow> Suc d \<le> d' \<Longrightarrow> fueled d' (Suc n) g"
  by (simp add: fueled_def)

lemma rest_consume:
  assumes "rdp_consume_blanks ctx = Inr c1" "rdp_peek c1 = Inr t"
  shows "Suc (rest (rdp_consume c1)) \<le> rest ctx"
proof -
  from rdp_consume_blanks_Inr [OF assms(1)] obtain k where "c1 = ctx\<lparr>position := k\<rparr>"
    "position ctx \<le> k" "k < length (tokens ctx)" by blast
  then show ?thesis by (simp add: rest_def rdp_consume_def)
qed

lemma rest_adv:
  assumes "adv g" "g ctx = Inr (a, ctx')"
  shows "Suc (rest ctx') \<le> rest ctx"
proof -
  from advD [OF assms] obtain k where "ctx' = ctx\<lparr>position := k\<rparr>" "position ctx < k"
    "k \<le> length (tokens ctx)" by blast
  then show ?thesis by (auto simp: rest_def)
qed

lemma fueled_paren:
  assumes "fueled 8 n e"
  shows "fueled 1 (Suc n) (rdp_paren e)"
  unfolding fueled_def
proof (intro allI impI notI)
  fix ctx assume le: "8 * rest ctx + 1 \<le> Suc n" and "rdp_paren e ctx = Inl OutOfFuel"
  from rdp_paren_OutOfFuel [OF this(2)] obtain c1 t where b: "rdp_consume_blanks ctx = Inr c1"
    and p: "rdp_peek c1 = Inr t" and e: "e (rdp_consume c1) = Inl OutOfFuel" by blast
  from rest_consume [OF b p] le have "8 * rest (rdp_consume c1) + 8 \<le> n" by simp
  with assms e show False by (simp add: fueled_def)
qed

lemma fueled_binary_exp:
  assumes "fueled d n sub" "fueled_loop n loop" "adv sub" "Suc d \<le> d'"
  shows "fueled d' (Suc n) (rdp_binary_exp sub loop)"
  unfolding fueled_def
proof (intro allI impI notI)
  fix ctx assume le': "8 * rest ctx + d' \<le> Suc n"
    and oof: "rdp_binary_exp sub loop ctx = Inl OutOfFuel"
  from le' assms(4) have le: "8 * rest ctx + Suc d \<le> Suc n" by simp
  from rdp_binary_exp_OutOfFuel [OF oof] show False
  proof
    assume "sub ctx = Inl OutOfFuel"
    with assms(1) le show False by (simp add: fueled_def)
  next
    assume "\<exists>left c1. sub ctx = Inr (left, c1) \<and> loop left c1 = Inl OutOfFuel"
    then obtain left c1 where s: "sub ctx = Inr (left, c1)" and l: "loop left c1 = Inl OutOfFuel"
      by blast
    from rest_adv [OF assms(3) s] le have "8 * rest c1 + 1 \<le> n" by simp
    with assms(2) l show False by (simp add: fueled_loop_def)
  qed
qed

lemma fueled_binary_loop:
  assumes "fueled d n sub" "d \<le> 8" "fueled_loop n loop" "adv sub"
  shows "fueled_loop (Suc n) (rdp_binary_loop ops sub loop)"
  unfolding fueled_loop_def
proof (intro allI impI notI)
  fix left ctx assume le: "8 * rest ctx + 1 \<le> Suc n"
    and "rdp_binary_loop ops sub loop left ctx = Inl OutOfFuel"
  from rdp_binary_loop_OutOfFuel [OF this(2)] obtain c1 t where
    b: "rdp_consume_blanks ctx = Inr c1" and p: "rdp_peek c1 = Inr t"
    and d: "sub (rdp_consume c1) = Inl OutOfFuel \<or>
            (\<exists>right c2. sub (rdp_consume c1) = Inr (right, c2) \<and>
               loop (ast_binary_operator (type t) left right) c2 = Inl OutOfFuel)" by blast
  note r = rest_consume [OF b p]
  from d show False
  proof
    assume "sub (rdp_consume c1) = Inl OutOfFuel"
    moreover from r le assms(2) have "8 * rest (rdp_consume c1) + d \<le> n" by simp
    ultimately show False using assms(1) by (simp add: fueled_def)
  next
    assume "\<exists>right c2. sub (rdp_consume c1) = Inr (right, c2) \<and>
               loop (ast_binary_operator (type t) left right) c2 = Inl OutOfFuel"
    then obtain right c2 where s: "sub (rdp_consume c1) = Inr (right, c2)"
      and l: "loop (ast_binary_operator (type t) left right) c2 = Inl OutOfFuel" by blast
    from rest_adv [OF assms(4) s] r le have "8 * rest c2 + 1 \<le> n" by simp
    with assms(3) l show False by (simp add: fueled_loop_def)
  qed
qed

lemma fueled_all:
  "fueled 1 n (rdp_primary_exp n) \<and> fueled 2 n (rdp_unary_exp n) \<and>
   fueled 3 n (rdp_mult_exp n) \<and> fueled_loop n (rdp_mult_exp_loop n) \<and>
   fueled 4 n (rdp_additive_exp n) \<and> fueled_loop n (rdp_additive_exp_loop n) \<and>
   fueled 5 n (rdp_and_exp n) \<and> fueled_loop n (rdp_and_exp_loop n) \<and>
   fueled 6 n (rdp_xor_exp n) \<and> fueled_loop n (rdp_xor_exp_loop n) \<and>
   fueled 7 n (rdp_ior_exp n) \<and> fueled_loop n (rdp_ior_exp_loop n) \<and>
   fueled 8 n (rdp_expression n)"
proof (induction n)
  case 0
  show ?case by (simp add: fueled_0)
next
  case (Suc n)
  then have IH: "fueled 1 n (rdp_primary_exp n)" "fueled 2 n (rdp_unary_exp n)"
    "fueled 3 n (rdp_mult_exp n)" "fueled_loop n (rdp_mult_exp_loop n)"
    "fueled 4 n (rdp_additive_exp n)" "fueled_loop n (rdp_additive_exp_loop n)"
    "fueled 5 n (rdp_and_exp n)" "fueled_loop n (rdp_and_exp_loop n)"
    "fueled 6 n (rdp_xor_exp n)" "fueled_loop n (rdp_xor_exp_loop n)"
    "fueled 7 n (rdp_ior_exp n)" "fueled_loop n (rdp_ior_exp_loop n)"
    "fueled 8 n (rdp_expression n)" by simp_all
  from adv_all [of n] have A: "adv (rdp_unary_exp n)" "adv (rdp_mult_exp n)"
    "adv (rdp_additive_exp n)" "adv (rdp_and_exp n)" "adv (rdp_xor_exp n)"
    by (simp_all add: all_rules_def)
  have "fueled 1 (Suc n) (rdp_primary_exp (Suc n))"
    unfolding rdp_rules_Suc by (rule fueled_paren [OF IH(13)])
  moreover have "fueled 2 (Suc n) (rdp_unary_exp (Suc n))"
    unfolding rdp_rules_Suc by (rule fueled_Suc [OF IH(1)]) simp
  moreover have "fueled 3 (Suc n) (rdp_mult_exp (Suc n))"
    unfolding rdp_rules_Suc by (rule fueled_binary_exp [OF IH(2) IH(4) A(1)]) simp
  moreover have "fueled_loop (Suc n) (rdp_mult_exp_loop (Suc n))"
    unfolding rdp_loops_Suc by (rule fueled_binary_loop [OF IH(2) _ IH(4) A(1)]) simp
  moreover have "fueled 4 (Suc n) (rdp_additive_exp (Suc n))"
    unfolding rdp_rules_Suc by (rule fueled_binary_exp [OF IH(3) IH(6) A(2)]) simp
  moreover have "fueled_loop (Suc n) (rdp_additive_exp_loop (Suc n))"
    unfolding rdp_loops_Suc by (rule fueled_binary_loop [OF IH(3) _ IH(6) A(2)]) simp
  moreover have "fueled 5 (Suc n) (rdp_and_exp (Suc n))"
    unfolding rdp_rules_Suc by (rule fueled_binary_exp [OF IH(5) IH(8) A(3)]) simp
  moreover have "fueled_loop (Suc n) (rdp_and_exp_loop (Suc n))"
    unfolding rdp_loops_Suc by (rule fueled_binary_loop [OF IH(5) _ IH(8) A(3)]) simp
  moreover have "fueled 6 (Suc n) (rdp_xor_exp (Suc n))"
    unfolding rdp_rules_Suc by (rule fueled_binary_exp [OF IH(7) IH(10) A(4)]) simp
  moreover have "fueled_loop (Suc n) (rdp_xor_exp_loop (Suc n))"
    unfolding rdp_loops_Suc by (rule fueled_binary_loop [OF IH(7) _ IH(10) A(4)]) simp
  moreover have "fueled 7 (Suc n) (rdp_ior_exp (Suc n))"
    unfolding rdp_rules_Suc by (rule fueled_binary_exp [OF IH(9) IH(12) A(5)]) simp
  moreover have "fueled_loop (Suc n) (rdp_ior_exp_loop (Suc n))"
    unfolding rdp_loops_Suc by (rule fueled_binary_loop [OF IH(9) _ IH(12) A(5)]) simp
  moreover have "fueled 8 (Suc n) (rdp_expression (Suc n))"
    unfolding rdp_rules_Suc by (rule fueled_Suc [OF IH(11)]) simp
  ultimately show ?case by blast
qed

lemma rdp_generate_ast_fueled: "rdp_generate_ast ctx \<noteq> Inl OutOfFuel"
  using fueled_all [of "rdp_fuel ctx"]
  by (simp add: fueled_def rdp_generate_ast_def rdp_fuel_def rest_def)

lemma rdp_expression_enough:
  assumes "rdp_fuel ctx \<le> n"
  shows "rdp_expression n ctx = rdp_generate_ast ctx"
  using extends_le [OF assms] rdp_generate_ast_fueled [of ctx]
  by (simp add: all_rules2_def extends_def rdp_generate_ast_def)

section \<open>A parse depends on the tokens it consumes\<close>

text \<open>
  A token that ends every loop of the grammar and is not skipped: no whitespace and no
  binary operator.
\<close>

definition stops :: "token_t \<Rightarrow> bool" where
  "stops t \<longleftrightarrow> type t \<noteq> TOK_SPACE \<and> type t \<notin> binary_operators"

text \<open>
  \<open>same_upto ts ts2 d k\<close>: the tokens of \<open>ts\<close> before index \<open>k\<close> stand in \<open>ts2\<close>,
  \<open>d\<close> places further on, and the token of \<open>ts2\<close> in the place of token \<open>k\<close> is the same
  or one at which every loop stops.
\<close>

definition same_upto :: "token_t list \<Rightarrow> token_t list \<Rightarrow> nat \<Rightarrow> nat \<Rightarrow> bool" where
  "same_upto ts ts2 d k \<longleftrightarrow>
     k + d < length ts2 \<and> (\<forall>i<k. ts2 ! (i + d) = ts ! i) \<and>
     (ts2 ! (k + d) = ts ! k \<or> stops (ts2 ! (k + d)))"

lemma same_upto_le:
  assumes "same_upto ts ts2 d k" "j \<le> k"
  shows "same_upto ts ts2 d j"
proof (cases "j = k")
  case True with assms show ?thesis by simp
next
  case False
  with assms have "j < k" by simp
  with assms(1) show ?thesis by (auto simp: same_upto_def)
qed

lemma same_upto_nth: "same_upto ts ts2 d k \<Longrightarrow> i < k \<Longrightarrow> ts2 ! (i + d) = ts ! i"
  by (simp add: same_upto_def)

lemma same_upto_length: "same_upto ts ts2 d k \<Longrightarrow> j \<le> k \<Longrightarrow> j + d < length ts2"
  by (simp add: same_upto_def)

lemma same_upto_not_space:
  "same_upto ts ts2 d k \<Longrightarrow> type (ts ! k) \<noteq> TOK_SPACE \<Longrightarrow> type (ts2 ! (k + d)) \<noteq> TOK_SPACE"
  by (auto simp: same_upto_def stops_def)

lemma same_upto_not_op:
  "same_upto ts ts2 d k \<Longrightarrow> ops \<subseteq> binary_operators \<Longrightarrow> type (ts ! k) \<notin> ops \<Longrightarrow>
     type (ts2 ! (k + d)) \<notin> ops"
  by (auto simp: same_upto_def stops_def)

lemma rdp_consume_blanks_run:
  assumes "position ctx \<le> k" "k < length (tokens ctx)" "type (tokens ctx ! k) \<noteq> TOK_SPACE"
    "\<forall>i. position ctx \<le> i \<and> i < k \<longrightarrow> type (tokens ctx ! i) = TOK_SPACE"
  shows "rdp_consume_blanks ctx = Inr (ctx\<lparr>position := k\<rparr>)"
  using assms
proof (induction ctx rule: rdp_consume_blanks.induct)
  case (1 ctx)
  show ?case
  proof (cases "position ctx = k")
    case True
    with "1.prems" show ?thesis by (simp add: rdp_consume_blanks.simps [of ctx])
  next
    case False
    with "1.prems" have lt: "position ctx < k" by simp
    with "1.prems" have a: "position ctx < length (tokens ctx)"
      and b: "type (tokens ctx ! position ctx) = TOK_SPACE" by simp_all
    have "rdp_consume_blanks (ctx\<lparr>position := position ctx + 1\<rparr>) =
        Inr (ctx\<lparr>position := position ctx + 1\<rparr>\<lparr>position := k\<rparr>)"
      using "1.prems" lt by (intro "1.IH" [OF a b]) simp_all
    with a b show ?thesis by (simp add: rdp_consume_blanks.simps [of ctx])
  qed
qed

lemma rdp_consume_blanks_local:
  assumes "rdp_consume_blanks ctx = Inr (ctx\<lparr>position := k1\<rparr>)"
    and "position ctx2 = position ctx + d"
    and "same_upto (tokens ctx) (tokens ctx2) d k" and "k1 \<le> k"
  shows "rdp_consume_blanks ctx2 = Inr (ctx2\<lparr>position := k1 + d\<rparr>)"
proof -
  from rdp_consume_blanks_Inr [OF assms(1)] obtain k' where
    k': "ctx\<lparr>position := k1\<rparr> = ctx\<lparr>position := k'\<rparr>" "position ctx \<le> k'"
    "k' < length (tokens ctx)" "type (tokens ctx ! k') \<noteq> TOK_SPACE"
    "\<forall>i. position ctx \<le> i \<and> i < k' \<longrightarrow> type (tokens ctx ! i) = TOK_SPACE" by blast
  from k'(1) have "position (ctx\<lparr>position := k1\<rparr>) = position (ctx\<lparr>position := k'\<rparr>)" by simp
  then have eq: "k' = k1" by simp
  note s1 = same_upto_le [OF assms(3,4)]
  show ?thesis
  proof (rule rdp_consume_blanks_run)
    show "position ctx2 \<le> k1 + d" using assms(2) k'(2) eq by simp
    show "k1 + d < length (tokens ctx2)" using same_upto_length [OF s1] by simp
    show "type (tokens ctx2 ! (k1 + d)) \<noteq> TOK_SPACE"
      using same_upto_not_space [OF s1] k'(4) eq by simp
    show "\<forall>i. position ctx2 \<le> i \<and> i < k1 + d \<longrightarrow> type (tokens ctx2 ! i) = TOK_SPACE"
    proof (intro allI impI)
      fix i assume i: "position ctx2 \<le> i \<and> i < k1 + d"
      then have "i - d < k1" "position ctx \<le> i - d" "i = (i - d) + d" using assms(2) by auto
      with same_upto_nth [OF s1, of "i - d"] k'(5) eq
      show "type (tokens ctx2 ! i) = TOK_SPACE" by auto
    qed
  qed
qed

definition local_rule :: "(rdp_t \<Rightarrow> parsed) \<Rightarrow> bool" where
  "local_rule g \<longleftrightarrow> (\<forall>ctx a k ctx2 d.
     g ctx = Inr (a, ctx\<lparr>position := k\<rparr>) \<longrightarrow> position ctx2 = position ctx + d \<longrightarrow>
     same_upto (tokens ctx) (tokens ctx2) d k \<longrightarrow>
     g ctx2 = Inr (a, ctx2\<lparr>position := k + d\<rparr>))"

definition local_loop :: "(node_t \<Rightarrow> rdp_t \<Rightarrow> parsed) \<Rightarrow> bool" where
  "local_loop h \<longleftrightarrow> (\<forall>left ctx a k ctx2 d.
     h left ctx = Inr (a, ctx\<lparr>position := k\<rparr>) \<longrightarrow> position ctx2 = position ctx + d \<longrightarrow>
     same_upto (tokens ctx) (tokens ctx2) d k \<longrightarrow>
     h left ctx2 = Inr (a, ctx2\<lparr>position := k + d\<rparr>))"

lemma local_ruleD:
  "local_rule g \<Longrightarrow> g ctx = Inr (a, ctx\<lparr>position := k\<rparr>) \<Longrightarrow>
     position ctx2 = position ctx + d \<Longrightarrow> same_upto (tokens ctx) (tokens ctx2) d k \<Longrightarrow>
     g ctx2 = Inr (a, ctx2\<lparr>position := k + d\<rparr>)"
  by (simp add: local_rule_def)

lemma local_loopD:
  "local_loop h \<Longrightarrow> h left ctx = Inr (a, ctx\<lparr>position := k\<rparr>) \<Longrightarrow>
     position ctx2 = position ctx + d \<Longrightarrow> same_upto (tokens ctx) (tokens ctx2) d k \<Longrightarrow>
     h left ctx2 = Inr (a, ctx2\<lparr>position := k + d\<rparr>)"
  by (simp add: local_loop_def)

lemma local_no_fuel: "local_rule no_fuel" "local_loop no_fuel_loop"
  by (simp_all add: local_rule_def local_loop_def no_fuel_def no_fuel_loop_def)

lemma rdp_const_local:
  assumes "rdp_const ctx = Inr (a, ctx\<lparr>position := k\<rparr>)"
    and "position ctx2 = position ctx + d"
    and "same_upto (tokens ctx) (tokens ctx2) d k"
  shows "rdp_const ctx2 = Inr (a, ctx2\<lparr>position := k + d\<rparr>)"
proof -
  from rdp_const_Inr [OF assms(1)] obtain j where j: "position ctx \<le> j" "j < length (tokens ctx)"
    "\<forall>i. position ctx \<le> i \<and> i < j \<longrightarrow> type (tokens ctx ! i) = TOK_SPACE"
    "type (tokens ctx ! j) = TOK_NUMBER"
    "a = ast_number (strtol (literal (tokens ctx ! j)))"
    "ctx\<lparr>position := k\<rparr> = ctx\<lparr>position := Suc j\<rparr>" by blast
  from j(6) have "position (ctx\<lparr>position := k\<rparr>) = position (ctx\<lparr>position := Suc j\<rparr>)" by simp
  then have k: "k = Suc j" by simp
  have b: "rdp_consume_blanks ctx = Inr (ctx\<lparr>position := j\<rparr>)"
    using j by (intro rdp_consume_blanks_run) simp_all
  have b2: "rdp_consume_blanks ctx2 = Inr (ctx2\<lparr>position := j + d\<rparr>)"
    using rdp_consume_blanks_local [OF b assms(2,3)] k by simp
  have t: "tokens ctx2 ! (j + d) = tokens ctx ! j"
    using same_upto_nth [OF assms(3), of j] k by simp
  have len: "j + d < length (tokens ctx2)" using same_upto_length [OF assms(3), of j] k by simp
  from b2 t len j(4,5) k show ?thesis
    by (simp add: rdp_const_def rdp_pop_def rdp_peek_def rdp_consume_def)
qed

lemma position_update_eq: "(ctx :: rdp_t)\<lparr>position := j\<rparr> = ctx\<lparr>position := k\<rparr> \<Longrightarrow> j = k"
proof -
  assume "ctx\<lparr>position := j\<rparr> = ctx\<lparr>position := k\<rparr>"
  then have "position (ctx\<lparr>position := j\<rparr>) = position (ctx\<lparr>position := k\<rparr>)" by simp
  then show ?thesis by simp
qed

lemma local_paren:
  assumes A: "adv e" and L: "local_rule e"
  shows "local_rule (rdp_paren e)"
  unfolding local_rule_def
proof (intro allI impI)
  fix ctx a k d and ctx2 :: rdp_t
  assume r: "rdp_paren e ctx = Inr (a, ctx\<lparr>position := k\<rparr>)"
    and pos: "position ctx2 = position ctx + d"
    and same: "same_upto (tokens ctx) (tokens ctx2) d k"
  from r obtain c1 t where b: "rdp_consume_blanks ctx = Inr c1" and p: "rdp_peek c1 = Inr t"
    by (auto simp: rdp_paren_def split: sum.splits)
  from rdp_consume_blanks_Inr [OF b] obtain k1 where k1: "c1 = ctx\<lparr>position := k1\<rparr>"
    "position ctx \<le> k1" "k1 < length (tokens ctx)" by blast
  from p k1 have t: "t = tokens ctx ! k1" by (simp add: rdp_peek_def)
  show "rdp_paren e ctx2 = Inr (a, ctx2\<lparr>position := k + d\<rparr>)"
  proof (cases "type t = TOK_LPAREN")
    case True
    with r b p obtain c2 c3 t3 where e: "e (rdp_consume c1) = Inr (a, c2)"
      and b2: "rdp_consume_blanks c2 = Inr c3" and p3: "rdp_pop c3 = Inr (t3, ctx\<lparr>position := k\<rparr>)"
      and t3: "type t3 = TOK_RPAREN"
      by (auto simp: rdp_paren_def xerror_def split: sum.splits if_splits)
    from advD [OF A e] k1 obtain k2 where k2: "c2 = ctx\<lparr>position := k2\<rparr>" "k1 < k2"
      by (auto simp: rdp_consume_def)
    from rdp_consume_blanks_Inr [OF b2] k2 obtain k3 where k3: "c3 = ctx\<lparr>position := k3\<rparr>"
      "k2 \<le> k3" "k3 < length (tokens ctx)" by auto
    from rdp_pop_Inr [OF p3] k3 have t3': "t3 = tokens ctx ! k3"
      and "ctx\<lparr>position := k\<rparr> = ctx\<lparr>position := Suc k3\<rparr>" by simp_all
    then have k: "k = Suc k3" using position_update_eq by blast
    have lt: "k1 < k" "k2 \<le> k" "k3 < k" "k3 \<le> k" using k k2 k3 by simp_all
    have B1: "rdp_consume_blanks ctx2 = Inr (ctx2\<lparr>position := k1 + d\<rparr>)"
      using rdp_consume_blanks_local [OF b [unfolded k1(1)] pos same] lt by simp
    have T1: "tokens ctx2 ! (k1 + d) = tokens ctx ! k1" using same_upto_nth [OF same lt(1)] .
    have len1: "k1 + d < length (tokens ctx2)" using same_upto_length [OF same] lt by simp
    have E: "e (ctx2\<lparr>position := Suc (k1 + d)\<rparr>) = Inr (a, ctx2\<lparr>position := k2 + d\<rparr>)"
    proof -
      have "e (ctx\<lparr>position := Suc k1\<rparr>) = Inr (a, ctx\<lparr>position := Suc k1\<rparr>\<lparr>position := k2\<rparr>)"
        using e k1 k2 by (simp add: rdp_consume_def)
      from local_ruleD [OF L this, of "ctx2\<lparr>position := Suc (k1 + d)\<rparr>" d]
        same_upto_le [OF same lt(2)]
      show ?thesis by simp
    qed
    have B2: "rdp_consume_blanks (ctx2\<lparr>position := k2 + d\<rparr>) = Inr (ctx2\<lparr>position := k3 + d\<rparr>)"
    proof -
      have "rdp_consume_blanks (ctx\<lparr>position := k2\<rparr>) =
          Inr (ctx\<lparr>position := k2\<rparr>\<lparr>position := k3\<rparr>)" using b2 k2 k3 by simp
      from rdp_consume_blanks_local [OF this, where ?ctx2.0 = "ctx2\<lparr>position := k2 + d\<rparr>" and d = d and k = k] same lt
      show ?thesis by simp
    qed
    have T3: "tokens ctx2 ! (k3 + d) = tokens ctx ! k3" using same_upto_nth [OF same lt(3)] .
    have len3: "k3 + d < length (tokens ctx2)" using same_upto_length [OF same lt(4)] .
    from B1 T1 len1 True t E B2 T3 len3 t3 t3' k show ?thesis
      by (simp add: rdp_paren_def rdp_peek_def rdp_consume_def rdp_pop_def)
  next
    case False
    with r b p have c: "rdp_const c1 = Inr (a, ctx\<lparr>position := k\<rparr>)" by (simp add: rdp_paren_def)
    from rdp_const_Inr [OF c] k1 obtain j where "k1 \<le> j"
      "ctx\<lparr>position := k\<rparr> = ctx\<lparr>position := Suc j\<rparr>" by auto
    then have lt: "k1 < k" using position_update_eq [where ctx = ctx and j = k] by auto
    have B1: "rdp_consume_blanks ctx2 = Inr (ctx2\<lparr>position := k1 + d\<rparr>)"
      using rdp_consume_blanks_local [OF b [unfolded k1(1)] pos same] lt by simp
    have T1: "tokens ctx2 ! (k1 + d) = tokens ctx ! k1" using same_upto_nth [OF same lt] .
    have len1: "k1 + d < length (tokens ctx2)" using same_upto_length [OF same] lt by simp
    have "rdp_const (ctx\<lparr>position := k1\<rparr>) = Inr (a, ctx\<lparr>position := k1\<rparr>\<lparr>position := k\<rparr>)"
      using c k1 by simp
    from rdp_const_local [OF this, of "ctx2\<lparr>position := k1 + d\<rparr>" d] same
    have "rdp_const (ctx2\<lparr>position := k1 + d\<rparr>) = Inr (a, ctx2\<lparr>position := k + d\<rparr>)" by simp
    with B1 T1 len1 False t show ?thesis by (simp add: rdp_paren_def rdp_peek_def)
  qed
qed

lemma local_binary_exp:
  assumes A: "adv sub" "adv_loop loop" and L: "local_rule sub" "local_loop loop"
  shows "local_rule (rdp_binary_exp sub loop)"
  unfolding local_rule_def
proof (intro allI impI)
  fix ctx a k d and ctx2 :: rdp_t
  assume r: "rdp_binary_exp sub loop ctx = Inr (a, ctx\<lparr>position := k\<rparr>)"
    and pos: "position ctx2 = position ctx + d"
    and same: "same_upto (tokens ctx) (tokens ctx2) d k"
  from r obtain left c1 where s: "sub ctx = Inr (left, c1)"
    and l: "loop left c1 = Inr (a, ctx\<lparr>position := k\<rparr>)"
    by (auto simp: rdp_binary_exp_def split: sum.splits)
  from advD [OF A(1) s] obtain k1 where k1: "c1 = ctx\<lparr>position := k1\<rparr>" by blast
  from adv_loopD [OF A(2) l] k1 obtain k' where "ctx\<lparr>position := k\<rparr> = ctx\<lparr>position := k'\<rparr>"
    "k1 \<le> k'" by auto
  then have le: "k1 \<le> k" using position_update_eq [where ctx = ctx and j = k and k = k'] by simp
  have S: "sub ctx2 = Inr (left, ctx2\<lparr>position := k1 + d\<rparr>)"
    using local_ruleD [OF L(1) s [unfolded k1] pos same_upto_le [OF same le]] .
  have "loop left (ctx\<lparr>position := k1\<rparr>) = Inr (a, ctx\<lparr>position := k1\<rparr>\<lparr>position := k\<rparr>)"
    using l k1 by simp
  from local_loopD [OF L(2) this, of "ctx2\<lparr>position := k1 + d\<rparr>" d] same
  have "loop left (ctx2\<lparr>position := k1 + d\<rparr>) = Inr (a, ctx2\<lparr>position := k + d\<rparr>)" by simp
  with S show "rdp_binary_exp sub loop ctx2 = Inr (a, ctx2\<lparr>position := k + d\<rparr>)"
    by (simp add: rdp_binary_exp_def)
qed

lemma local_binary_loop:
  assumes ops: "ops \<subseteq> binary_operators"
    and A: "adv sub" "adv_loop loop" and L: "local_rule sub" "local_loop loop"
  shows "local_loop (rdp_binary_loop ops sub loop)"
  unfolding local_loop_def
proof (intro allI impI)
  fix left ctx a k d and ctx2 :: rdp_t
  assume r: "rdp_binary_loop ops sub loop left ctx = Inr (a, ctx\<lparr>position := k\<rparr>)"
    and pos: "position ctx2 = position ctx + d"
    and same: "same_upto (tokens ctx) (tokens ctx2) d k"
  from r obtain c1 t where b: "rdp_consume_blanks ctx = Inr c1" and p: "rdp_peek c1 = Inr t"
    by (auto simp: rdp_binary_loop_def split: sum.splits)
  from rdp_consume_blanks_Inr [OF b] obtain k1 where k1: "c1 = ctx\<lparr>position := k1\<rparr>"
    "position ctx \<le> k1" "k1 < length (tokens ctx)" by blast
  from p k1 have t: "t = tokens ctx ! k1" by (simp add: rdp_peek_def)
  show "rdp_binary_loop ops sub loop left ctx2 = Inr (a, ctx2\<lparr>position := k + d\<rparr>)"
  proof (cases "type t \<in> ops")
    case True
    with r b p obtain right c2 where s: "sub (rdp_consume c1) = Inr (right, c2)"
      and l: "loop (ast_binary_operator (type t) left right) c2 = Inr (a, ctx\<lparr>position := k\<rparr>)"
      by (auto simp: rdp_binary_loop_def split: sum.splits)
    from advD [OF A(1) s] k1 obtain k2 where k2: "c2 = ctx\<lparr>position := k2\<rparr>" "k1 < k2"
      by (auto simp: rdp_consume_def)
    from adv_loopD [OF A(2) l] k2 obtain k' where "ctx\<lparr>position := k\<rparr> = ctx\<lparr>position := k'\<rparr>"
      "k2 \<le> k'" by auto
    then have le: "k2 \<le> k" using position_update_eq [where ctx = ctx and j = k and k = k'] by simp
    with k2 have lt: "k1 < k" by simp
    have B1: "rdp_consume_blanks ctx2 = Inr (ctx2\<lparr>position := k1 + d\<rparr>)"
      using rdp_consume_blanks_local [OF b [unfolded k1(1)] pos same] lt by simp
    have T1: "tokens ctx2 ! (k1 + d) = tokens ctx ! k1" using same_upto_nth [OF same lt] .
    have len1: "k1 + d < length (tokens ctx2)" using same_upto_length [OF same] lt by simp
    have S: "sub (ctx2\<lparr>position := Suc (k1 + d)\<rparr>) = Inr (right, ctx2\<lparr>position := k2 + d\<rparr>)"
    proof -
      have "sub (ctx\<lparr>position := Suc k1\<rparr>) = Inr (right, ctx\<lparr>position := Suc k1\<rparr>\<lparr>position := k2\<rparr>)"
        using s k1 k2 by (simp add: rdp_consume_def)
      from local_ruleD [OF L(1) this, of "ctx2\<lparr>position := Suc (k1 + d)\<rparr>" d]
        same_upto_le [OF same le]
      show ?thesis by simp
    qed
    have "loop (ast_binary_operator (type t) left right) (ctx\<lparr>position := k2\<rparr>) =
        Inr (a, ctx\<lparr>position := k2\<rparr>\<lparr>position := k\<rparr>)" using l k2 by simp
    from local_loopD [OF L(2) this, of "ctx2\<lparr>position := k2 + d\<rparr>" d] same
    have "loop (ast_binary_operator (type t) left right) (ctx2\<lparr>position := k2 + d\<rparr>) =
        Inr (a, ctx2\<lparr>position := k + d\<rparr>)" by simp
    with B1 T1 len1 True t S show ?thesis
      by (simp add: rdp_binary_loop_def rdp_peek_def rdp_consume_def)
  next
    case False
    with r b p have "ctx\<lparr>position := k\<rparr> = c1" and a: "a = left"
      by (simp_all add: rdp_binary_loop_def)
    with k1 have k: "k = k1" using position_update_eq [where ctx = ctx and j = k and k = k1] by simp
    have B1: "rdp_consume_blanks ctx2 = Inr (ctx2\<lparr>position := k1 + d\<rparr>)"
      using rdp_consume_blanks_local [OF b [unfolded k1(1)] pos same] k by simp
    have len1: "k1 + d < length (tokens ctx2)" using same_upto_length [OF same] k by simp
    have "type (tokens ctx2 ! (k1 + d)) \<notin> ops"
      using same_upto_not_op [OF same ops] False t k by simp
    with B1 len1 a k show ?thesis
      by (simp add: rdp_binary_loop_def rdp_peek_def)
  qed
qed

lemma local_all: "all_rules local_rule local_loop n"
  by (rule rdp_rules_induct_adv)
     (rule local_no_fuel local_paren local_binary_exp local_binary_loop; assumption)+

lemma rdp_fuel_ge: "8 \<le> rdp_fuel ctx"
  by (simp add: rdp_fuel_def)

lemma rdp_generate_ast_Inr:
  assumes "rdp_generate_ast ctx = Inr (a, ctx')"
  shows "\<exists>k. ctx' = ctx\<lparr>position := k\<rparr> \<and> position ctx < k \<and> k < length (tokens ctx)"
proof -
  have "rdp_fuel ctx = Suc (Suc (8 * (length (tokens ctx) - position ctx) + 6))"
    by (simp add: rdp_fuel_def)
  then obtain n where n: "rdp_fuel ctx = Suc (Suc n)" ..
  from assms n have r: "rdp_binary_exp (rdp_xor_exp n) (rdp_ior_exp_loop n) ctx = Inr (a, ctx')"
    by (simp add: rdp_generate_ast_def rdp_rules_Suc)
  then obtain left c1 where s: "rdp_xor_exp n ctx = Inr (left, c1)"
    and l: "rdp_ior_exp_loop n left c1 = Inr (a, ctx')"
    by (auto simp: rdp_binary_exp_def split: sum.splits)
  from adv_all [of n] have A: "adv (rdp_xor_exp n)" "adv_loop (rdp_ior_exp_loop n)"
    by (simp_all add: all_rules_def)
  from advD [OF A(1) s] obtain k1 where k1: "c1 = ctx\<lparr>position := k1\<rparr>" "position ctx < k1" by blast
  from adv_loopD [OF A(2) l] k1 obtain k where "ctx' = ctx\<lparr>position := k\<rparr>" "k1 \<le> k"
    "k < length (tokens ctx)" by auto
  with k1 show ?thesis by (intro exI [of _ k]) simp
qed

lemma rdp_generate_ast_same_upto:
  assumes r: "rdp_generate_ast ctx = Inr (a, ctx\<lparr>position := k\<rparr>)"
    and pos: "position ctx2 = position ctx + d"
    and same: "same_upto (tokens ctx) (tokens ctx2) d k"
  shows "rdp_generate_ast ctx2 = Inr (a, ctx2\<lparr>position := k + d\<rparr>)"
proof -
  define n where "n = max (rdp_fuel ctx) (rdp_fuel ctx2)"
  have "rdp_expression n ctx = Inr (a, ctx\<lparr>position := k\<rparr>)"
    using rdp_expression_enough [of ctx n] r by (simp add: n_def)
  moreover from local_all [of n] have "local_rule (rdp_expression n)" by (simp add: all_rules_def)
  ultimately have "rdp_expression n ctx2 = Inr (a, ctx2\<lparr>position := k + d\<rparr>)"
    using pos same by (simp add: local_rule_def)
  then show ?thesis using rdp_expression_enough [of ctx2 n] by (simp add: n_def)
qed

text \<open>
  The well-formed token sequences of the specification: the last token is the
  end-of-input token, and no other token is.
\<close>

definition wellformed :: "token_t list \<Rightarrow> bool" where
  "wellformed toks \<longleftrightarrow>
     toks \<noteq> [] \<and> type (last toks) = TOK_EOF \<and> (\<forall>t\<in>set (butlast toks). type t \<noteq> TOK_EOF)"

lemma wellformed_ends_eof: "wellformed toks \<Longrightarrow> ends_eof (rdp_init toks len)"
  by (auto simp: wellformed_def ends_eof_def rdp_init_def last_conv_nth)

lemma same_upto_take:
  assumes "take k toks2 = take k toks" "k < length toks" "k < length toks2" "stops (toks2 ! k)"
  shows "same_upto toks toks2 0 k"
proof -
  have "\<forall>i<k. toks2 ! i = toks ! i"
  proof (intro allI impI)
    fix i assume "i < k"
    then have "toks2 ! i = take k toks2 ! i" "toks ! i = take k toks ! i" by simp_all
    with assms(1) show "toks2 ! i = toks ! i" by simp
  qed
  with assms show ?thesis by (simp add: same_upto_def)
qed

lemma rdp_generate_ast_prefix:
  assumes r: "rdp_generate_ast (rdp_init toks len) = Inr (a, ctx')"
    and t: "take (position ctx') toks2 = take (position ctx') toks"
    and l: "position ctx' < length toks2" and s: "stops (toks2 ! position ctx')"
  shows "rdp_generate_ast (rdp_init toks2 len2) =
           Inr (a, (rdp_init toks2 len2)\<lparr>position := position ctx'\<rparr>)"
proof -
  from rdp_generate_ast_Inr [OF r] obtain k where k: "ctx' = (rdp_init toks len)\<lparr>position := k\<rparr>"
    "k < length toks" by (auto simp: rdp_init_def)
  then have pk: "position ctx' = k" by simp
  have "same_upto (tokens (rdp_init toks len)) (tokens (rdp_init toks2 len2)) 0 k"
    using same_upto_take [of k toks2 toks] t l s k(2) pk by (simp add: rdp_init_def)
  from rdp_generate_ast_same_upto [OF r [unfolded k(1)] _ this] pk show ?thesis
    by (simp add: rdp_init_def)
qed

lemma stops_EOF: "stops (lex_mkspecial TOK_EOF)"
  by (simp add: stops_def lex_mkspecial_def binary_operators_def)


lemma rdp_consume_blanks_stay:
  assumes "position ctx < length (tokens ctx)" "type (tokens ctx ! position ctx) \<noteq> TOK_SPACE"
  shows "rdp_consume_blanks ctx = Inr ctx"
  using assms by (simp add: rdp_consume_blanks.simps [of ctx])

lemma rdp_binary_loop_stop:
  assumes "position ctx < length (tokens ctx)" "stops (tokens ctx ! position ctx)"
    "ops \<subseteq> binary_operators"
  shows "rdp_binary_loop ops sub loop left ctx = Inr (left, ctx)"
proof -
  from assms(2) have "type (tokens ctx ! position ctx) \<noteq> TOK_SPACE" by (simp add: stops_def)
  from rdp_consume_blanks_stay [OF assms(1) this] assms show ?thesis
    by (auto simp: rdp_binary_loop_def rdp_peek_def stops_def)
qed

lemma rdp_loops_stop:
  assumes "position ctx < length (tokens ctx)" "stops (tokens ctx ! position ctx)"
  shows "rdp_mult_exp_loop (Suc n) left ctx = Inr (left, ctx)"
    "rdp_additive_exp_loop (Suc n) left ctx = Inr (left, ctx)"
    "rdp_and_exp_loop (Suc n) left ctx = Inr (left, ctx)"
    "rdp_xor_exp_loop (Suc n) left ctx = Inr (left, ctx)"
    "rdp_ior_exp_loop (Suc n) left ctx = Inr (left, ctx)"
  unfolding rdp_loops_Suc
  by (rule rdp_binary_loop_stop [OF assms], simp add: binary_operators_def)+

lemma rdp_expression_of_primary:
  assumes p: "rdp_primary_exp (Suc m) ctx = Inr (a, c)"
    and c: "position c < length (tokens c)" "stops (tokens c ! position c)"
  shows "rdp_expression (Suc (Suc (Suc (Suc (Suc (Suc (Suc (Suc m)))))))) ctx = Inr (a, c)"
proof -
  note L = rdp_loops_stop [OF c]
  have u: "rdp_unary_exp (Suc (Suc m)) ctx = Inr (a, c)"
    using p by (simp add: rdp_rules_Suc)
  have 1: "rdp_mult_exp (Suc (Suc (Suc m))) ctx = Inr (a, c)"
    using u L(1) [of "Suc m" a] by (simp add: rdp_rules_Suc(4) rdp_binary_exp_def)
  have 2: "rdp_additive_exp (Suc (Suc (Suc (Suc m)))) ctx = Inr (a, c)"
    using 1 L(2) [of "Suc (Suc m)" a] by (simp add: rdp_rules_Suc(5) rdp_binary_exp_def)
  have 3: "rdp_and_exp (Suc (Suc (Suc (Suc (Suc m))))) ctx = Inr (a, c)"
    using 2 L(3) [of "Suc (Suc (Suc m))" a] by (simp add: rdp_rules_Suc(6) rdp_binary_exp_def)
  have 4: "rdp_xor_exp (Suc (Suc (Suc (Suc (Suc (Suc m)))))) ctx = Inr (a, c)"
    using 3 L(4) [of "Suc (Suc (Suc (Suc m)))" a] by (simp add: rdp_rules_Suc(7) rdp_binary_exp_def)
  have 5: "rdp_ior_exp (Suc (Suc (Suc (Suc (Suc (Suc (Suc m))))))) ctx = Inr (a, c)"
    using 4 L(5) [of "Suc (Suc (Suc (Suc (Suc m))))" a]
    by (simp add: rdp_rules_Suc(8) rdp_binary_exp_def)
  then show ?thesis by (simp add: rdp_rules_Suc(3))
qed

lemma rdp_paren_run:
  assumes lp: "position ctx < length (tokens ctx)" "type (tokens ctx ! position ctx) = TOK_LPAREN"
    and e: "e (ctx\<lparr>position := Suc (position ctx)\<rparr>) = Inr (a, ctx\<lparr>position := k\<rparr>)"
    and rp: "k < length (tokens ctx)" "type (tokens ctx ! k) = TOK_RPAREN"
  shows "rdp_paren e ctx = Inr (a, ctx\<lparr>position := Suc k\<rparr>)"
proof -
  have b1: "rdp_consume_blanks ctx = Inr ctx"
    using lp by (intro rdp_consume_blanks_stay) simp_all
  have b2: "rdp_consume_blanks (ctx\<lparr>position := k\<rparr>) = Inr (ctx\<lparr>position := k\<rparr>)"
    using rp by (intro rdp_consume_blanks_stay) simp_all
  from b1 b2 lp e rp show ?thesis
    by (simp add: rdp_paren_def rdp_peek_def rdp_consume_def rdp_pop_def)
qed


section \<open>The claims about every parse\<close>

text \<open>
  Claim C9, as the code has it. For a well-formed token sequence the parse never reads a
  token outside of the sequence: \<^verbatim>\<open>rdp_peek\<close>, \<^verbatim>\<open>rdp_pop\<close> and
  \<^verbatim>\<open>rdp_consume_blanks\<close> return \<open>TokenOutOfBounds\<close> when the cursor is no index of the
  sequence, every rule hands that result on, and the parse does not end with it: the
  cursor is an index of the sequence at every read. The parse ends within the fuel of
  \<^verbatim>\<open>rdp_generate_ast\<close>, with a node or with \<open>UnexpectedToken\<close>; when it returns a
  node, the cursor is an index of the sequence. The same holds for every rule and every
  fuel (\<open>in_bounds\<close>), and \<^verbatim>\<open>rdp_consume_blanks\<close> stops on a token, at the latest on
  the end-of-input token.
\<close>

theorem cursor_in_bounds:
  assumes "wellformed toks"
  shows "rdp_generate_ast (rdp_init toks len) \<noteq> Inl TokenOutOfBounds
    \<and> rdp_generate_ast (rdp_init toks len) \<noteq> Inl OutOfFuel
    \<and> (\<forall>e. rdp_generate_ast (rdp_init toks len) = Inl e \<longrightarrow> e = UnexpectedToken)
    \<and> (\<forall>a ctx'. rdp_generate_ast (rdp_init toks len) = Inr (a, ctx') \<longrightarrow>
          tokens ctx' = toks \<and> position ctx' < length toks)
    \<and> (\<forall>n. all_rules in_bounds in_bounds_loop n)
    \<and> (\<forall>ctx. ends_eof ctx \<longrightarrow> (\<exists>c1. rdp_consume_blanks ctx = Inr c1 \<and> ends_eof c1))"
proof -
  let ?ctx = "rdp_init toks len"
  from in_bounds_all [of "rdp_fuel ?ctx"] have "in_bounds (rdp_expression (rdp_fuel ?ctx))"
    by (simp add: all_rules_def)
  with wellformed_ends_eof [OF assms, of len]
  have a: "rdp_generate_ast ?ctx \<noteq> Inl TokenOutOfBounds"
    by (simp add: in_bounds_def rdp_generate_ast_def)
  have b: "\<forall>a ctx'. rdp_generate_ast ?ctx = Inr (a, ctx') \<longrightarrow>
          tokens ctx' = toks \<and> position ctx' < length toks"
  proof (intro allI impI)
    fix a ctx' assume "rdp_generate_ast ?ctx = Inr (a, ctx')"
    from rdp_generate_ast_Inr [OF this] show "tokens ctx' = toks \<and> position ctx' < length toks"
      by (auto simp: rdp_init_def)
  qed
  have c: "\<forall>ctx. ends_eof ctx \<longrightarrow> (\<exists>c1. rdp_consume_blanks ctx = Inr c1 \<and> ends_eof c1)"
  proof (intro allI impI)
    fix ctx assume e: "ends_eof ctx"
    from rdp_consume_blanks_ends_eof [OF e] obtain c1 where b: "rdp_consume_blanks ctx = Inr c1" ..
    from rdp_consume_blanks_Inr [OF b] obtain k where "c1 = ctx\<lparr>position := k\<rparr>"
      "k < length (tokens ctx)" by blast
    with ends_eof_later [OF e, of k] b
    show "\<exists>c1. rdp_consume_blanks ctx = Inr c1 \<and> ends_eof c1" by simp
  qed
  have d: "\<forall>e. rdp_generate_ast ?ctx = Inl e \<longrightarrow> e = UnexpectedToken"
  proof (intro allI impI)
    fix e assume "rdp_generate_ast ?ctx = Inl e"
    with a rdp_generate_ast_fueled [of ?ctx] show "e = UnexpectedToken" by (cases e) simp_all
  qed
  from a b c d rdp_generate_ast_fueled [of ?ctx] in_bounds_all show ?thesis by blast
qed


theorem cursor_in_bounds_witness:
  "wellformed [KW TOK_LPAREN, NUM ''1'', lex_mkspecial TOK_SPACE, lex_mkspecial TOK_EOF]
   \<and> rdp_generate_ast
        (rdp_init [KW TOK_LPAREN, NUM ''1'', lex_mkspecial TOK_SPACE, lex_mkspecial TOK_EOF] 4) \<noteq>
       Inl TokenOutOfBounds
   \<and> rdp_generate_ast
        (rdp_init [KW TOK_LPAREN, NUM ''1'', lex_mkspecial TOK_SPACE, lex_mkspecial TOK_EOF] 4) =
       Inl UnexpectedToken"
proof -
  have w: "wellformed [KW TOK_LPAREN, NUM ''1'', lex_mkspecial TOK_SPACE, lex_mkspecial TOK_EOF]"
    by (simp add: wellformed_def lex_mkkw_def lex_mknumber_def lex_mkspecial_def)
  have "rdp_generate_ast
        (rdp_init [KW TOK_LPAREN, NUM ''1'', lex_mkspecial TOK_SPACE, lex_mkspecial TOK_EOF] 4) =
       Inl UnexpectedToken" by code_simp
  with w cursor_in_bounds [OF w, of 4] show ?thesis by simp
qed

text \<open>
  Claim C9 as stated fails: the cursor does not stay an index of the sequence
  throughout a parse. \<^verbatim>\<open>rdp_pop\<close> moves the cursor on whatever the token is. In the
  parse of the well-formed sequence that holds the end-of-input token alone,
  \<^verbatim>\<open>rdp_const\<close> pops that token, which leaves the cursor at the length of the
  sequence, where a read would be outside of it, and then fails because the token is no
  number.
\<close>

theorem cursor_behind_last_token:
  "wellformed [lex_mkspecial TOK_EOF]
   \<and> rdp_consume_blanks (rdp_init [lex_mkspecial TOK_EOF] 1) =
       Inr (rdp_init [lex_mkspecial TOK_EOF] 1)
   \<and> rdp_pop (rdp_init [lex_mkspecial TOK_EOF] 1) =
       Inr (lex_mkspecial TOK_EOF, (rdp_init [lex_mkspecial TOK_EOF] 1)\<lparr>position := 1\<rparr>)
   \<and> position ((rdp_init [lex_mkspecial TOK_EOF] 1)\<lparr>position := 1\<rparr>) =
       length [lex_mkspecial TOK_EOF]
   \<and> rdp_peek ((rdp_init [lex_mkspecial TOK_EOF] 1)\<lparr>position := 1\<rparr>) = Inl TokenOutOfBounds
   \<and> rdp_const (rdp_init [lex_mkspecial TOK_EOF] 1) = Inl UnexpectedToken
   \<and> rdp_generate_ast (rdp_init [lex_mkspecial TOK_EOF] 1) = Inl UnexpectedToken"
proof -
  have w: "wellformed [lex_mkspecial TOK_EOF]"
    by (simp add: wellformed_def lex_mkspecial_def)
  have r: "rdp_consume_blanks (rdp_init [lex_mkspecial TOK_EOF] 1) =
       Inr (rdp_init [lex_mkspecial TOK_EOF] 1)
   \<and> rdp_pop (rdp_init [lex_mkspecial TOK_EOF] 1) =
       Inr (lex_mkspecial TOK_EOF, (rdp_init [lex_mkspecial TOK_EOF] 1)\<lparr>position := 1\<rparr>)
   \<and> position ((rdp_init [lex_mkspecial TOK_EOF] 1)\<lparr>position := 1\<rparr>) =
       length [lex_mkspecial TOK_EOF]
   \<and> rdp_peek ((rdp_init [lex_mkspecial TOK_EOF] 1)\<lparr>position := 1\<rparr>) = Inl TokenOutOfBounds
   \<and> rdp_const (rdp_init [lex_mkspecial TOK_EOF] 1) = Inl UnexpectedToken
   \<and> rdp_generate_ast (rdp_init [lex_mkspecial TOK_EOF] 1) = Inl UnexpectedToken"
    by code_simp
  from w r show ?thesis by (rule conjI)
qed

text \<open>
  Claim C10. Every tree that \<^verbatim>\<open>rdp_generate_ast\<close> returns satisfies \<open>ast_ok\<close>: its
  leaves are numbers marked as terminals, its inner nodes are binary nodes whose
  operator is one of bitwise-or, bitwise-xor, bitwise-and, plus, minus, multiply, divide
  and modulo, and it has no unary node.
\<close>

theorem ast_shape:
  "rdp_generate_ast ctx = Inr (a, ctx') \<Longrightarrow> ast_ok a"
proof -
  assume r: "rdp_generate_ast ctx = Inr (a, ctx')"
  from builds_ok_all [of "rdp_fuel ctx"] have "builds_ok (rdp_expression (rdp_fuel ctx))"
    by (simp add: all_rules_def)
  with r show "ast_ok a" unfolding builds_ok_def rdp_generate_ast_def by blast
qed


theorem ast_shape_witness:
  "rdp_generate_ast (rdp_init [NUM ''2'', KW TOK_BWAND, NUM ''3'', lex_mkspecial TOK_EOF] 4) =
     Inr (Binary TOK_BWAND (Leaf 2) (Leaf 3),
          \<lparr>tokens = [NUM ''2'', KW TOK_BWAND, NUM ''3'', lex_mkspecial TOK_EOF],
           position = 3, length_rdp = 4\<rparr>)
   \<and> ast_ok (Binary TOK_BWAND (Leaf 2) (Leaf 3))"
proof -
  have r: "rdp_generate_ast (rdp_init [NUM ''2'', KW TOK_BWAND, NUM ''3'', lex_mkspecial TOK_EOF] 4) =
     Inr (Binary TOK_BWAND (Leaf 2) (Leaf 3),
          \<lparr>tokens = [NUM ''2'', KW TOK_BWAND, NUM ''3'', lex_mkspecial TOK_EOF],
           position = 3, length_rdp = 4\<rparr>)" by code_simp
  from r ast_shape [OF r] show ?thesis by (rule conjI)
qed

text \<open>
  Claim C8, as the code has it. \<^verbatim>\<open>rdp_generate_ast\<close> is one call of the expression
  rule, and nothing looks at the tokens behind the expression. When the parse of a token
  sequence returns a tree, the tree is the one of the consumed prefix alone (the tokens
  before the cursor, followed by the end-of-input token), and it is the tree for that
  prefix followed by any other tokens of which the first is no whitespace and no binary
  operator. So a prefix that is parsed to a tree up to its end gives the same tree
  when such tokens follow it: the trailing tokens are ignored.
\<close>

theorem trailing_tokens_ignored:
  "(rdp_generate_ast (rdp_init toks len) = Inr (a, ctx') \<longrightarrow>
      position ctx' < length toks
      \<and> rdp_generate_ast (rdp_init (take (position ctx') toks @ [lex_mkspecial TOK_EOF]) len1) =
          Inr (a, (rdp_init (take (position ctx') toks @ [lex_mkspecial TOK_EOF]) len1)
                    \<lparr>position := position ctx'\<rparr>)
      \<and> (\<forall>t trailing. stops t \<longrightarrow>
            rdp_generate_ast (rdp_init (take (position ctx') toks @ t # trailing) len2) =
              Inr (a, (rdp_init (take (position ctx') toks @ t # trailing) len2)
                        \<lparr>position := position ctx'\<rparr>)))
   \<and> (rdp_generate_ast (rdp_init (pre @ [eof]) len3) = Inr (b, ctx'') \<and>
      position ctx'' = length pre \<and> stops t0 \<longrightarrow>
        rdp_generate_ast (rdp_init (pre @ t0 # trailing0) len4) =
          Inr (b, (rdp_init (pre @ t0 # trailing0) len4)\<lparr>position := length pre\<rparr>))"
proof (intro conjI impI)
  assume r: "rdp_generate_ast (rdp_init toks len) = Inr (a, ctx')"
  from rdp_generate_ast_Inr [OF r] show lt: "position ctx' < length toks"
    by (auto simp: rdp_init_def)
  have g: "rdp_generate_ast (rdp_init (take (position ctx') toks @ t # trailing) l) =
            Inr (a, (rdp_init (take (position ctx') toks @ t # trailing) l)
                      \<lparr>position := position ctx'\<rparr>)" if "stops t" for t trailing l
    using lt that by (intro rdp_generate_ast_prefix [OF r]) (simp_all add: nth_append)
  from g [OF stops_EOF, of "[]" len1]
  show "rdp_generate_ast (rdp_init (take (position ctx') toks @ [lex_mkspecial TOK_EOF]) len1) =
          Inr (a, (rdp_init (take (position ctx') toks @ [lex_mkspecial TOK_EOF]) len1)
                    \<lparr>position := position ctx'\<rparr>)" .
  from g show "\<forall>t trailing. stops t \<longrightarrow>
            rdp_generate_ast (rdp_init (take (position ctx') toks @ t # trailing) len2) =
              Inr (a, (rdp_init (take (position ctx') toks @ t # trailing) len2)
                        \<lparr>position := position ctx'\<rparr>)" by blast
next
  assume h: "rdp_generate_ast (rdp_init (pre @ [eof]) len3) = Inr (b, ctx'') \<and>
      position ctx'' = length pre \<and> stops t0"
  then have r: "rdp_generate_ast (rdp_init (pre @ [eof]) len3) = Inr (b, ctx'')"
    and p: "position ctx'' = length pre" and s: "stops t0" by simp_all
  from rdp_generate_ast_prefix [OF r, of "pre @ t0 # trailing0" len4] p s
  show "rdp_generate_ast (rdp_init (pre @ t0 # trailing0) len4) =
          Inr (b, (rdp_init (pre @ t0 # trailing0) len4)\<lparr>position := length pre\<rparr>)"
    by (simp add: nth_append)
qed

theorem trailing_tokens_ignored_witness:
  "rdp_generate_ast
     (rdp_init [NUM ''1'', KW TOK_PLUS, NUM ''2'', KW TOK_RPAREN, NUM ''7'', lex_mkspecial TOK_EOF] 6) =
     Inr (Binary TOK_PLUS (Leaf 1) (Leaf 2),
          \<lparr>tokens = [NUM ''1'', KW TOK_PLUS, NUM ''2'', KW TOK_RPAREN, NUM ''7'',
                     lex_mkspecial TOK_EOF],
           position = 3, length_rdp = 6\<rparr>)
   \<and> rdp_generate_ast (rdp_init [NUM ''1'', KW TOK_PLUS, NUM ''2'', lex_mkspecial TOK_EOF] 4) =
     Inr (Binary TOK_PLUS (Leaf 1) (Leaf 2),
          \<lparr>tokens = [NUM ''1'', KW TOK_PLUS, NUM ''2'', lex_mkspecial TOK_EOF],
           position = 3, length_rdp = 4\<rparr>)
   \<and> rdp_generate_ast
       (rdp_init [NUM ''1'', KW TOK_PLUS, NUM ''2'', lex_mkspecial TOK_EOF, NUM ''9''] 5) =
     Inr (Binary TOK_PLUS (Leaf 1) (Leaf 2),
          \<lparr>tokens = [NUM ''1'', KW TOK_PLUS, NUM ''2'', lex_mkspecial TOK_EOF, NUM ''9''],
           position = 3, length_rdp = 5\<rparr>)"
proof -
  let ?toks = "[NUM ''1'', KW TOK_PLUS, NUM ''2'', KW TOK_RPAREN, NUM ''7'', lex_mkspecial TOK_EOF]"
  let ?pre = "[NUM ''1'', KW TOK_PLUS, NUM ''2'']"
  let ?c = "\<lparr>tokens = ?toks, position = 3, length_rdp = 6\<rparr>"
  let ?c4 = "\<lparr>tokens = ?pre @ [lex_mkspecial TOK_EOF], position = 3, length_rdp = 4\<rparr>"
  have r: "rdp_generate_ast (rdp_init ?toks 6) = Inr (Binary TOK_PLUS (Leaf 1) (Leaf 2), ?c)"
    by code_simp
  note t = trailing_tokens_ignored [of ?toks 6 "Binary TOK_PLUS (Leaf 1) (Leaf 2)" ?c 4 0
      ?pre "lex_mkspecial TOK_EOF" 4 "Binary TOK_PLUS (Leaf 1) (Leaf 2)" ?c4
      "lex_mkspecial TOK_EOF" "[NUM ''9'']" 5]
  from t r have p: "rdp_generate_ast (rdp_init (?pre @ [lex_mkspecial TOK_EOF]) 4) =
      Inr (Binary TOK_PLUS (Leaf 1) (Leaf 2), ?c4)"
    by (simp add: rdp_init_def)
  from t p stops_EOF
  have q: "rdp_generate_ast (rdp_init (?pre @ lex_mkspecial TOK_EOF # [NUM ''9'']) 5) =
      Inr (Binary TOK_PLUS (Leaf 1) (Leaf 2),
           (rdp_init (?pre @ lex_mkspecial TOK_EOF # [NUM ''9'']) 5)\<lparr>position := length ?pre\<rparr>)"
    by simp
  from r p q show ?thesis by (simp add: rdp_init_def)
qed

text \<open>
  Claim C8 as stated fails: trailing tokens that begin with a binary operator are not
  ignored. The tokens of \<^verbatim>\<open>1\<close> are parsed to \<open>Leaf 1\<close>; followed by the token of \<open>+\<close>
  the parse fails, and followed by the tokens of \<^verbatim>\<open>+2\<close> it returns another tree.
\<close>

theorem trailing_operator_not_ignored:
  "rdp_generate_ast (rdp_init [NUM ''1'', lex_mkspecial TOK_EOF] 2) =
     Inr (Leaf 1, (rdp_init [NUM ''1'', lex_mkspecial TOK_EOF] 2)\<lparr>position := 1\<rparr>)
   \<and> rdp_generate_ast (rdp_init [NUM ''1'', KW TOK_PLUS, lex_mkspecial TOK_EOF] 3) =
     Inl UnexpectedToken
   \<and> rdp_generate_ast (rdp_init [NUM ''1'', KW TOK_PLUS, NUM ''2'', lex_mkspecial TOK_EOF] 4) =
     Inr (Binary TOK_PLUS (Leaf 1) (Leaf 2),
          (rdp_init [NUM ''1'', KW TOK_PLUS, NUM ''2'', lex_mkspecial TOK_EOF] 4)
            \<lparr>position := 3\<rparr>)
   \<and> interpreter_line (zero_padded ''1'') = Root (Leaf 1)
   \<and> interpreter_line (zero_padded ''1+'') = Invalid_Expression UnexpectedToken
   \<and> interpreter_line (zero_padded ''1+2'') = Root (Binary TOK_PLUS (Leaf 1) (Leaf 2))"
  by code_simp

text \<open>
  Claim C5. Let the parse of the tokens of a text \<open>E\<close> return a tree and stop at the
  end-of-input token, so that the whole of \<open>E\<close> is one expression. Then the parse of
  the same tokens between an opening and a closing parenthesis returns the same tree:
  \<^verbatim>\<open>rdp_primary_exp\<close> consumes the opening parenthesis, returns the node of the
  expression rule as it is, and consumes the closing parenthesis.
\<close>

theorem parenthesized_same_ast:
  assumes E: "rdp_generate_ast (rdp_init (ts @ [eof]) len) = Inr (a, ctx')"
    and whole: "position ctx' = length ts"
    and ty: "type eof = TOK_EOF" "type lp = TOK_LPAREN" "type rp = TOK_RPAREN"
  shows "rdp_generate_ast (rdp_init (lp # ts @ [rp, eof]) len2) =
           Inr (a, (rdp_init (lp # ts @ [rp, eof]) len2)\<lparr>position := length ts + 2\<rparr>)"
proof -
  let ?c1 = "rdp_init (ts @ [eof]) len"
  let ?c2 = "rdp_init (lp # ts @ [rp, eof]) len2"
  define m where "m = rdp_fuel ?c1 + rdp_fuel ?c2"
  from rdp_generate_ast_Inr [OF E] whole have c': "ctx' = ?c1\<lparr>position := length ts\<rparr>" by auto
  have stops: "stops rp" "stops eof"
    using ty by (simp_all add: stops_def binary_operators_def)
  have run: "rdp_expression m ?c1 = Inr (a, ?c1\<lparr>position := length ts\<rparr>)"
    using rdp_expression_enough [of ?c1 m] E c' by (simp add: m_def)
  from local_all [of m] have loc: "local_rule (rdp_expression m)" by (simp add: all_rules_def)
  have same: "same_upto (tokens ?c1) (tokens (?c2\<lparr>position := Suc 0\<rparr>)) 1 (length ts)"
    using stops by (simp add: same_upto_def rdp_init_def nth_append)
  have pos: "position (?c2\<lparr>position := Suc 0\<rparr>) = position ?c1 + 1" by (simp add: rdp_init_def)
  have inner: "rdp_expression m (?c2\<lparr>position := Suc 0\<rparr>) =
      Inr (a, ?c2\<lparr>position := Suc (length ts)\<rparr>)"
    using local_ruleD [OF loc run pos same] by simp
  have "rdp_primary_exp (Suc m) ?c2 = Inr (a, ?c2\<lparr>position := Suc (Suc (length ts))\<rparr>)"
    unfolding rdp_rules_Suc
    using inner ty by (intro rdp_paren_run) (simp_all add: rdp_init_def nth_append)
  then have "rdp_expression (Suc (Suc (Suc (Suc (Suc (Suc (Suc (Suc m)))))))) ?c2 =
      Inr (a, ?c2\<lparr>position := Suc (Suc (length ts))\<rparr>)"
    using stops(2) by (intro rdp_expression_of_primary) (simp_all add: rdp_init_def nth_append)
  moreover have "rdp_fuel ?c2 \<le> Suc (Suc (Suc (Suc (Suc (Suc (Suc (Suc m)))))))"
    by (simp add: m_def)
  ultimately show ?thesis using rdp_expression_enough [of ?c2] by simp
qed

theorem parenthesized_same_ast_witness:
  "lex_tokens (lex_init (zero_padded ''2+3*4'') STRING_BACKED) [] =
     Tokens ([NUM ''2'', KW TOK_PLUS, NUM ''3'', KW TOK_MULTIPLY, NUM ''4''] @ [lex_mkspecial TOK_EOF])
   \<and> lex_tokens (lex_init (zero_padded ''(2+3*4)'') STRING_BACKED) [] =
     Tokens (KW TOK_LPAREN # [NUM ''2'', KW TOK_PLUS, NUM ''3'', KW TOK_MULTIPLY, NUM ''4''] @
             [KW TOK_RPAREN, lex_mkspecial TOK_EOF])
   \<and> interpreter_line (zero_padded ''2+3*4'') =
     Root (Binary TOK_PLUS (Leaf 2) (Binary TOK_MULTIPLY (Leaf 3) (Leaf 4)))
   \<and> interpreter_line (zero_padded ''(2+3*4)'') =
     Root (Binary TOK_PLUS (Leaf 2) (Binary TOK_MULTIPLY (Leaf 3) (Leaf 4)))"
proof -
  let ?ts = "[NUM ''2'', KW TOK_PLUS, NUM ''3'', KW TOK_MULTIPLY, NUM ''4'']"
  have l1: "lex_tokens (lex_init (zero_padded ''2+3*4'') STRING_BACKED) [] = Tokens (?ts @ [lex_mkspecial TOK_EOF])"
    by code_simp
  have l2: "lex_tokens (lex_init (zero_padded ''(2+3*4)'') STRING_BACKED) [] =
     Tokens (KW TOK_LPAREN # ?ts @ [KW TOK_RPAREN, lex_mkspecial TOK_EOF])"
    by code_simp
  let ?n1 = "length (?ts @ [lex_mkspecial TOK_EOF])"
  let ?n2 = "length (KW TOK_LPAREN # ?ts @ [KW TOK_RPAREN, lex_mkspecial TOK_EOF])"
  have r: "rdp_generate_ast (rdp_init (?ts @ [lex_mkspecial TOK_EOF]) ?n1) =
     Inr (Binary TOK_PLUS (Leaf 2) (Binary TOK_MULTIPLY (Leaf 3) (Leaf 4)),
          \<lparr>tokens = ?ts @ [lex_mkspecial TOK_EOF], position = 5, length_rdp = 6\<rparr>)"
    by code_simp
  have p: "rdp_generate_ast (rdp_init (KW TOK_LPAREN # ?ts @ [KW TOK_RPAREN, lex_mkspecial TOK_EOF]) ?n2) =
     Inr (Binary TOK_PLUS (Leaf 2) (Binary TOK_MULTIPLY (Leaf 3) (Leaf 4)),
          (rdp_init (KW TOK_LPAREN # ?ts @ [KW TOK_RPAREN, lex_mkspecial TOK_EOF]) ?n2)
            \<lparr>position := length ?ts + 2\<rparr>)"
    by (rule parenthesized_same_ast [OF r])
       (simp_all add: lex_mkspecial_def lex_mkkw_def)
  have i1: "interpreter_line (zero_padded ''2+3*4'') =
     Root (Binary TOK_PLUS (Leaf 2) (Binary TOK_MULTIPLY (Leaf 3) (Leaf 4)))"
    using l1 r by (simp only: interpreter_line_def lexed.case sum.case prod.case)
  have i2: "interpreter_line (zero_padded ''(2+3*4)'') =
     Root (Binary TOK_PLUS (Leaf 2) (Binary TOK_MULTIPLY (Leaf 3) (Leaf 4)))"
    using l2 p by (simp only: interpreter_line_def lexed.case sum.case prod.case)
  from l1 l2 i1 i2 show ?thesis by blast
qed

section \<open>The rules without fuel\<close>

text \<open>
  Each rule with the fuel of \<^verbatim>\<open>rdp_generate_ast\<close>. That fuel is enough for every rule,
  and more fuel gives the same result (\<open>rdp_rules_enough\<close>); the rules with that fuel
  satisfy the equations of the C functions, in which no fuel occurs
  (\<open>parse_rules_unfold\<close>).
\<close>

definition parse_primary_exp :: "rdp_t \<Rightarrow> parsed" where
  "parse_primary_exp ctx = rdp_primary_exp (rdp_fuel ctx) ctx"

definition parse_unary_exp :: "rdp_t \<Rightarrow> parsed" where
  "parse_unary_exp ctx = rdp_unary_exp (rdp_fuel ctx) ctx"

definition parse_mult_exp :: "rdp_t \<Rightarrow> parsed" where
  "parse_mult_exp ctx = rdp_mult_exp (rdp_fuel ctx) ctx"

definition parse_mult_exp_loop :: "node_t \<Rightarrow> rdp_t \<Rightarrow> parsed" where
  "parse_mult_exp_loop left ctx = rdp_mult_exp_loop (rdp_fuel ctx) left ctx"

definition parse_additive_exp :: "rdp_t \<Rightarrow> parsed" where
  "parse_additive_exp ctx = rdp_additive_exp (rdp_fuel ctx) ctx"

definition parse_additive_exp_loop :: "node_t \<Rightarrow> rdp_t \<Rightarrow> parsed" where
  "parse_additive_exp_loop left ctx = rdp_additive_exp_loop (rdp_fuel ctx) left ctx"

definition parse_and_exp :: "rdp_t \<Rightarrow> parsed" where
  "parse_and_exp ctx = rdp_and_exp (rdp_fuel ctx) ctx"

definition parse_and_exp_loop :: "node_t \<Rightarrow> rdp_t \<Rightarrow> parsed" where
  "parse_and_exp_loop left ctx = rdp_and_exp_loop (rdp_fuel ctx) left ctx"

definition parse_xor_exp :: "rdp_t \<Rightarrow> parsed" where
  "parse_xor_exp ctx = rdp_xor_exp (rdp_fuel ctx) ctx"

definition parse_xor_exp_loop :: "node_t \<Rightarrow> rdp_t \<Rightarrow> parsed" where
  "parse_xor_exp_loop left ctx = rdp_xor_exp_loop (rdp_fuel ctx) left ctx"

definition parse_ior_exp :: "rdp_t \<Rightarrow> parsed" where
  "parse_ior_exp ctx = rdp_ior_exp (rdp_fuel ctx) ctx"

definition parse_ior_exp_loop :: "node_t \<Rightarrow> rdp_t \<Rightarrow> parsed" where
  "parse_ior_exp_loop left ctx = rdp_ior_exp_loop (rdp_fuel ctx) left ctx"

lemma fueledD: "fueled d n g \<Longrightarrow> 8 * rest ctx + d \<le> n \<Longrightarrow> g ctx \<noteq> Inl OutOfFuel"
  by (simp add: fueled_def)

lemma fueled_loopD:
  "fueled_loop n h \<Longrightarrow> 8 * rest ctx + 1 \<le> n \<Longrightarrow> h left ctx \<noteq> Inl OutOfFuel"
  by (simp add: fueled_loop_def)

lemma rdp_fuel_rest: "d \<le> 8 \<Longrightarrow> 8 * rest ctx + d \<le> rdp_fuel ctx"
  by (simp add: rdp_fuel_def rest_def)

lemma rdp_rules_fueled:
  "rdp_primary_exp (rdp_fuel ctx) ctx \<noteq> Inl OutOfFuel"
  "rdp_unary_exp (rdp_fuel ctx) ctx \<noteq> Inl OutOfFuel"
  "rdp_mult_exp (rdp_fuel ctx) ctx \<noteq> Inl OutOfFuel"
  "rdp_mult_exp_loop (rdp_fuel ctx) left ctx \<noteq> Inl OutOfFuel"
  "rdp_additive_exp (rdp_fuel ctx) ctx \<noteq> Inl OutOfFuel"
  "rdp_additive_exp_loop (rdp_fuel ctx) left ctx \<noteq> Inl OutOfFuel"
  "rdp_and_exp (rdp_fuel ctx) ctx \<noteq> Inl OutOfFuel"
  "rdp_and_exp_loop (rdp_fuel ctx) left ctx \<noteq> Inl OutOfFuel"
  "rdp_xor_exp (rdp_fuel ctx) ctx \<noteq> Inl OutOfFuel"
  "rdp_xor_exp_loop (rdp_fuel ctx) left ctx \<noteq> Inl OutOfFuel"
  "rdp_ior_exp (rdp_fuel ctx) ctx \<noteq> Inl OutOfFuel"
  "rdp_ior_exp_loop (rdp_fuel ctx) left ctx \<noteq> Inl OutOfFuel"
proof -
  let ?n = "rdp_fuel ctx"
  from fueled_all [of ?n] have f: "fueled 1 ?n (rdp_primary_exp ?n)"
    "fueled 2 ?n (rdp_unary_exp ?n)"
    "fueled 3 ?n (rdp_mult_exp ?n)" "fueled_loop ?n (rdp_mult_exp_loop ?n)"
    "fueled 4 ?n (rdp_additive_exp ?n)" "fueled_loop ?n (rdp_additive_exp_loop ?n)"
    "fueled 5 ?n (rdp_and_exp ?n)" "fueled_loop ?n (rdp_and_exp_loop ?n)"
    "fueled 6 ?n (rdp_xor_exp ?n)" "fueled_loop ?n (rdp_xor_exp_loop ?n)"
    "fueled 7 ?n (rdp_ior_exp ?n)" "fueled_loop ?n (rdp_ior_exp_loop ?n)"
    by simp_all
  show "rdp_primary_exp ?n ctx \<noteq> Inl OutOfFuel" by (rule fueledD [OF f(1)]) (rule rdp_fuel_rest, simp)
  show "rdp_unary_exp ?n ctx \<noteq> Inl OutOfFuel" by (rule fueledD [OF f(2)]) (rule rdp_fuel_rest, simp)
  show "rdp_mult_exp ?n ctx \<noteq> Inl OutOfFuel" by (rule fueledD [OF f(3)]) (rule rdp_fuel_rest, simp)
  show "rdp_mult_exp_loop ?n left ctx \<noteq> Inl OutOfFuel"
    by (rule fueled_loopD [OF f(4)]) (rule rdp_fuel_rest, simp)
  show "rdp_additive_exp ?n ctx \<noteq> Inl OutOfFuel" by (rule fueledD [OF f(5)]) (rule rdp_fuel_rest, simp)
  show "rdp_additive_exp_loop ?n left ctx \<noteq> Inl OutOfFuel"
    by (rule fueled_loopD [OF f(6)]) (rule rdp_fuel_rest, simp)
  show "rdp_and_exp ?n ctx \<noteq> Inl OutOfFuel" by (rule fueledD [OF f(7)]) (rule rdp_fuel_rest, simp)
  show "rdp_and_exp_loop ?n left ctx \<noteq> Inl OutOfFuel"
    by (rule fueled_loopD [OF f(8)]) (rule rdp_fuel_rest, simp)
  show "rdp_xor_exp ?n ctx \<noteq> Inl OutOfFuel" by (rule fueledD [OF f(9)]) (rule rdp_fuel_rest, simp)
  show "rdp_xor_exp_loop ?n left ctx \<noteq> Inl OutOfFuel"
    by (rule fueled_loopD [OF f(10)]) (rule rdp_fuel_rest, simp)
  show "rdp_ior_exp ?n ctx \<noteq> Inl OutOfFuel" by (rule fueledD [OF f(11)]) (rule rdp_fuel_rest, simp)
  show "rdp_ior_exp_loop ?n left ctx \<noteq> Inl OutOfFuel"
    by (rule fueled_loopD [OF f(12)]) (rule rdp_fuel_rest, simp)
qed

lemma extendsD: "extends g g' \<Longrightarrow> g ctx \<noteq> Inl OutOfFuel \<Longrightarrow> g' ctx = g ctx"
  by (simp add: extends_def)

lemma extends_loopD:
  "extends_loop h h' \<Longrightarrow> h left ctx \<noteq> Inl OutOfFuel \<Longrightarrow> h' left ctx = h left ctx"
  by (simp add: extends_loop_def)

lemma rdp_rules_enough:
  assumes "rdp_fuel ctx \<le> n"
  shows "rdp_primary_exp n ctx = parse_primary_exp ctx"
    "rdp_unary_exp n ctx = parse_unary_exp ctx"
    "rdp_mult_exp n ctx = parse_mult_exp ctx"
    "rdp_mult_exp_loop n left ctx = parse_mult_exp_loop left ctx"
    "rdp_additive_exp n ctx = parse_additive_exp ctx"
    "rdp_additive_exp_loop n left ctx = parse_additive_exp_loop left ctx"
    "rdp_and_exp n ctx = parse_and_exp ctx"
    "rdp_and_exp_loop n left ctx = parse_and_exp_loop left ctx"
    "rdp_xor_exp n ctx = parse_xor_exp ctx"
    "rdp_xor_exp_loop n left ctx = parse_xor_exp_loop left ctx"
    "rdp_ior_exp n ctx = parse_ior_exp ctx"
    "rdp_ior_exp_loop n left ctx = parse_ior_exp_loop left ctx"
proof -
  let ?m = "rdp_fuel ctx"
  from extends_le [OF assms] have e:
    "extends (rdp_primary_exp ?m) (rdp_primary_exp n)"
    "extends (rdp_unary_exp ?m) (rdp_unary_exp n)"
    "extends (rdp_mult_exp ?m) (rdp_mult_exp n)"
    "extends_loop (rdp_mult_exp_loop ?m) (rdp_mult_exp_loop n)"
    "extends (rdp_additive_exp ?m) (rdp_additive_exp n)"
    "extends_loop (rdp_additive_exp_loop ?m) (rdp_additive_exp_loop n)"
    "extends (rdp_and_exp ?m) (rdp_and_exp n)"
    "extends_loop (rdp_and_exp_loop ?m) (rdp_and_exp_loop n)"
    "extends (rdp_xor_exp ?m) (rdp_xor_exp n)"
    "extends_loop (rdp_xor_exp_loop ?m) (rdp_xor_exp_loop n)"
    "extends (rdp_ior_exp ?m) (rdp_ior_exp n)"
    "extends_loop (rdp_ior_exp_loop ?m) (rdp_ior_exp_loop n)"
    by (simp_all add: all_rules2_def)
  note f = rdp_rules_fueled [of ctx]
  show "rdp_primary_exp n ctx = parse_primary_exp ctx"
    unfolding parse_primary_exp_def by (rule extendsD [OF e(1) f(1)])
  show "rdp_unary_exp n ctx = parse_unary_exp ctx"
    unfolding parse_unary_exp_def by (rule extendsD [OF e(2) f(2)])
  show "rdp_mult_exp n ctx = parse_mult_exp ctx"
    unfolding parse_mult_exp_def by (rule extendsD [OF e(3) f(3)])
  show "rdp_mult_exp_loop n left ctx = parse_mult_exp_loop left ctx"
    unfolding parse_mult_exp_loop_def by (rule extends_loopD [OF e(4) f(4)])
  show "rdp_additive_exp n ctx = parse_additive_exp ctx"
    unfolding parse_additive_exp_def by (rule extendsD [OF e(5) f(5)])
  show "rdp_additive_exp_loop n left ctx = parse_additive_exp_loop left ctx"
    unfolding parse_additive_exp_loop_def by (rule extends_loopD [OF e(6) f(6)])
  show "rdp_and_exp n ctx = parse_and_exp ctx"
    unfolding parse_and_exp_def by (rule extendsD [OF e(7) f(7)])
  show "rdp_and_exp_loop n left ctx = parse_and_exp_loop left ctx"
    unfolding parse_and_exp_loop_def by (rule extends_loopD [OF e(8) f(8)])
  show "rdp_xor_exp n ctx = parse_xor_exp ctx"
    unfolding parse_xor_exp_def by (rule extendsD [OF e(9) f(9)])
  show "rdp_xor_exp_loop n left ctx = parse_xor_exp_loop left ctx"
    unfolding parse_xor_exp_loop_def by (rule extends_loopD [OF e(10) f(10)])
  show "rdp_ior_exp n ctx = parse_ior_exp ctx"
    unfolding parse_ior_exp_def by (rule extendsD [OF e(11) f(11)])
  show "rdp_ior_exp_loop n left ctx = parse_ior_exp_loop left ctx"
    unfolding parse_ior_exp_loop_def by (rule extends_loopD [OF e(12) f(12)])
qed

text \<open>
  A rule that calls other rules only on contexts further on in the same tokens gives the
  same result with any rules that agree with them there.
\<close>

lemma rdp_fuel_later:
  "position ctx \<le> k \<Longrightarrow> rdp_fuel (ctx\<lparr>position := k\<rparr>) \<le> rdp_fuel ctx"
  by (simp add: rdp_fuel_def)

lemma rdp_binary_loop_cong:
  assumes sub: "\<And>c. rdp_fuel c \<le> rdp_fuel ctx \<Longrightarrow> sub c = sub' c"
    and loop: "\<And>l c. rdp_fuel c \<le> rdp_fuel ctx \<Longrightarrow> loop l c = loop' l c"
    and a: "adv sub"
  shows "rdp_binary_loop ops sub loop left ctx = rdp_binary_loop ops sub' loop' left ctx"
proof (cases "rdp_consume_blanks ctx")
  case (Inl e)
  then show ?thesis by (simp add: rdp_binary_loop_def)
next
  case (Inr c1)
  from rdp_consume_blanks_Inr [OF Inr] obtain k where
    k: "c1 = ctx\<lparr>position := k\<rparr>" "position ctx \<le> k" by blast
  have f1: "rdp_fuel (rdp_consume c1) \<le> rdp_fuel ctx"
    using k by (simp add: rdp_consume_def rdp_fuel_def)
  note s1 = sub [OF f1, symmetric]
  show ?thesis
  proof (cases "sub (rdp_consume c1)")
    case (Inl e)
    show ?thesis
      by (simp only: rdp_binary_loop_def Inr s1 Inl sum.case)
  next
    case r: (Inr p)
    obtain right c2 where p: "p = (right, c2)" by (cases p)
    from advD [OF a r [unfolded p]] obtain k2 where
      k2: "c2 = (rdp_consume c1)\<lparr>position := k2\<rparr>" "position (rdp_consume c1) < k2" by blast
    have "rdp_fuel c2 \<le> rdp_fuel ctx"
      using k k2 by (simp add: rdp_consume_def rdp_fuel_def)
    note l = loop [OF this, symmetric]
    show ?thesis
      by (simp only: rdp_binary_loop_def Inr s1 r p sum.case prod.case l)
  qed
qed

lemma rdp_binary_exp_cong:
  assumes sub: "sub ctx = sub' ctx"
    and loop: "\<And>l c. rdp_fuel c \<le> rdp_fuel ctx \<Longrightarrow> loop l c = loop' l c"
    and a: "adv sub"
  shows "rdp_binary_exp sub loop ctx = rdp_binary_exp sub' loop' ctx"
proof (cases "sub ctx")
  case (Inl e)
  show ?thesis by (simp only: rdp_binary_exp_def sub [symmetric] Inl sum.case)
next
  case (Inr p)
  obtain left c1 where p: "p = (left, c1)" by (cases p)
  from advD [OF a Inr [unfolded p]] obtain k where
    k: "c1 = ctx\<lparr>position := k\<rparr>" "position ctx < k" by blast
  have "rdp_fuel c1 \<le> rdp_fuel ctx" using k by (simp add: rdp_fuel_def)
  note l = loop [OF this, symmetric]
  show ?thesis by (simp only: rdp_binary_exp_def sub [symmetric] Inr p sum.case prod.case l)
qed

lemma rdp_paren_cong:
  assumes e: "\<And>c. rdp_fuel c \<le> rdp_fuel ctx \<Longrightarrow> e c = e' c"
  shows "rdp_paren e ctx = rdp_paren e' ctx"
proof (cases "rdp_consume_blanks ctx")
  case (Inl x)
  then show ?thesis by (simp add: rdp_paren_def)
next
  case (Inr c1)
  from rdp_consume_blanks_Inr [OF Inr] obtain k where
    k: "c1 = ctx\<lparr>position := k\<rparr>" "position ctx \<le> k" by blast
  have "rdp_fuel (rdp_consume c1) \<le> rdp_fuel ctx"
    using k by (simp add: rdp_consume_def rdp_fuel_def)
  note e1 = e [OF this, symmetric]
  show ?thesis by (simp only: rdp_paren_def Inr sum.case e1)
qed

text \<open>
  The equations of the C functions: each rule without fuel is its body applied to the
  rules without fuel.
\<close>

lemma parse_rules_unfold:
  "parse_primary_exp ctx = rdp_paren rdp_generate_ast ctx"
  "parse_unary_exp ctx = parse_primary_exp ctx"
  "rdp_generate_ast ctx = parse_ior_exp ctx"
  "parse_mult_exp ctx = rdp_binary_exp parse_unary_exp parse_mult_exp_loop ctx"
  "parse_additive_exp ctx = rdp_binary_exp parse_mult_exp parse_additive_exp_loop ctx"
  "parse_and_exp ctx = rdp_binary_exp parse_additive_exp parse_and_exp_loop ctx"
  "parse_xor_exp ctx = rdp_binary_exp parse_and_exp parse_xor_exp_loop ctx"
  "parse_ior_exp ctx = rdp_binary_exp parse_xor_exp parse_ior_exp_loop ctx"
proof -
  let ?n = "rdp_fuel ctx"
  note E = rdp_rules_enough
  from adv_all [of ?n] have A: "adv (rdp_unary_exp ?n)" "adv (rdp_mult_exp ?n)"
    "adv (rdp_additive_exp ?n)" "adv (rdp_and_exp ?n)" "adv (rdp_xor_exp ?n)"
    by (simp_all add: all_rules_def)
  have "parse_primary_exp ctx = rdp_primary_exp (Suc ?n) ctx" by (simp add: E)
  also have "\<dots> = rdp_paren (rdp_expression ?n) ctx" by (simp add: rdp_rules_Suc)
  also have "\<dots> = rdp_paren rdp_generate_ast ctx"
    by (rule rdp_paren_cong) (rule rdp_expression_enough)
  finally show "parse_primary_exp ctx = rdp_paren rdp_generate_ast ctx" .
  have "parse_unary_exp ctx = rdp_unary_exp (Suc ?n) ctx" by (simp add: E)
  also have "\<dots> = parse_primary_exp ctx" by (simp add: rdp_rules_Suc E)
  finally show "parse_unary_exp ctx = parse_primary_exp ctx" .
  have "rdp_generate_ast ctx = rdp_expression (Suc ?n) ctx"
    by (simp add: rdp_expression_enough)
  also have "\<dots> = parse_ior_exp ctx" by (simp add: rdp_rules_Suc E)
  finally show "rdp_generate_ast ctx = parse_ior_exp ctx" .
  have "parse_mult_exp ctx = rdp_mult_exp (Suc ?n) ctx" by (simp add: E)
  also have "\<dots> = rdp_binary_exp (rdp_unary_exp ?n) (rdp_mult_exp_loop ?n) ctx"
    by (simp add: rdp_rules_Suc)
  also have "\<dots> = rdp_binary_exp parse_unary_exp parse_mult_exp_loop ctx"
    by (rule rdp_binary_exp_cong [OF _ _ A(1)]) (simp_all add: E)
  finally show "parse_mult_exp ctx = rdp_binary_exp parse_unary_exp parse_mult_exp_loop ctx" .
  have "parse_additive_exp ctx = rdp_additive_exp (Suc ?n) ctx" by (simp add: E)
  also have "\<dots> = rdp_binary_exp (rdp_mult_exp ?n) (rdp_additive_exp_loop ?n) ctx"
    by (simp add: rdp_rules_Suc)
  also have "\<dots> = rdp_binary_exp parse_mult_exp parse_additive_exp_loop ctx"
    by (rule rdp_binary_exp_cong [OF _ _ A(2)]) (simp_all add: E)
  finally show "parse_additive_exp ctx =
      rdp_binary_exp parse_mult_exp parse_additive_exp_loop ctx" .
  have "parse_and_exp ctx = rdp_and_exp (Suc ?n) ctx" by (simp add: E)
  also have "\<dots> = rdp_binary_exp (rdp_additive_exp ?n) (rdp_and_exp_loop ?n) ctx"
    by (simp add: rdp_rules_Suc)
  also have "\<dots> = rdp_binary_exp parse_additive_exp parse_and_exp_loop ctx"
    by (rule rdp_binary_exp_cong [OF _ _ A(3)]) (simp_all add: E)
  finally show "parse_and_exp ctx = rdp_binary_exp parse_additive_exp parse_and_exp_loop ctx" .
  have "parse_xor_exp ctx = rdp_xor_exp (Suc ?n) ctx" by (simp add: E)
  also have "\<dots> = rdp_binary_exp (rdp_and_exp ?n) (rdp_xor_exp_loop ?n) ctx"
    by (simp add: rdp_rules_Suc)
  also have "\<dots> = rdp_binary_exp parse_and_exp parse_xor_exp_loop ctx"
    by (rule rdp_binary_exp_cong [OF _ _ A(4)]) (simp_all add: E)
  finally show "parse_xor_exp ctx = rdp_binary_exp parse_and_exp parse_xor_exp_loop ctx" .
  have "parse_ior_exp ctx = rdp_ior_exp (Suc ?n) ctx" by (simp add: E)
  also have "\<dots> = rdp_binary_exp (rdp_xor_exp ?n) (rdp_ior_exp_loop ?n) ctx"
    by (simp add: rdp_rules_Suc)
  also have "\<dots> = rdp_binary_exp parse_xor_exp parse_ior_exp_loop ctx"
    by (rule rdp_binary_exp_cong [OF _ _ A(5)]) (simp_all add: E)
  finally show "parse_ior_exp ctx = rdp_binary_exp parse_xor_exp parse_ior_exp_loop ctx" .
qed

lemma parse_loops_unfold:
  "parse_mult_exp_loop left ctx =
     rdp_binary_loop {TOK_MULTIPLY, TOK_DIV, TOK_MOD} parse_unary_exp parse_mult_exp_loop left ctx"
  "parse_additive_exp_loop left ctx =
     rdp_binary_loop {TOK_PLUS, TOK_MINUS} parse_mult_exp parse_additive_exp_loop left ctx"
  "parse_and_exp_loop left ctx =
     rdp_binary_loop {TOK_BWAND} parse_additive_exp parse_and_exp_loop left ctx"
  "parse_xor_exp_loop left ctx =
     rdp_binary_loop {TOK_BWXOR} parse_and_exp parse_xor_exp_loop left ctx"
  "parse_ior_exp_loop left ctx =
     rdp_binary_loop {TOK_BWOR} parse_xor_exp parse_ior_exp_loop left ctx"
proof -
  let ?n = "rdp_fuel ctx"
  note E = rdp_rules_enough
  from adv_all [of ?n] have A: "adv (rdp_unary_exp ?n)" "adv (rdp_mult_exp ?n)"
    "adv (rdp_additive_exp ?n)" "adv (rdp_and_exp ?n)" "adv (rdp_xor_exp ?n)"
    by (simp_all add: all_rules_def)
  have "parse_mult_exp_loop left ctx = rdp_mult_exp_loop (Suc ?n) left ctx" by (simp add: E)
  also have "\<dots> = rdp_binary_loop {TOK_MULTIPLY, TOK_DIV, TOK_MOD}
      (rdp_unary_exp ?n) (rdp_mult_exp_loop ?n) left ctx" by (simp add: rdp_loops_Suc)
  also have "\<dots> = rdp_binary_loop {TOK_MULTIPLY, TOK_DIV, TOK_MOD}
      parse_unary_exp parse_mult_exp_loop left ctx"
    by (rule rdp_binary_loop_cong [OF _ _ A(1)]) (simp_all add: E)
  finally show "parse_mult_exp_loop left ctx =
     rdp_binary_loop {TOK_MULTIPLY, TOK_DIV, TOK_MOD} parse_unary_exp parse_mult_exp_loop left ctx" .
  have "parse_additive_exp_loop left ctx = rdp_additive_exp_loop (Suc ?n) left ctx"
    by (simp add: E)
  also have "\<dots> = rdp_binary_loop {TOK_PLUS, TOK_MINUS}
      (rdp_mult_exp ?n) (rdp_additive_exp_loop ?n) left ctx" by (simp add: rdp_loops_Suc)
  also have "\<dots> = rdp_binary_loop {TOK_PLUS, TOK_MINUS}
      parse_mult_exp parse_additive_exp_loop left ctx"
    by (rule rdp_binary_loop_cong [OF _ _ A(2)]) (simp_all add: E)
  finally show "parse_additive_exp_loop left ctx =
     rdp_binary_loop {TOK_PLUS, TOK_MINUS} parse_mult_exp parse_additive_exp_loop left ctx" .
  have "parse_and_exp_loop left ctx = rdp_and_exp_loop (Suc ?n) left ctx" by (simp add: E)
  also have "\<dots> = rdp_binary_loop {TOK_BWAND}
      (rdp_additive_exp ?n) (rdp_and_exp_loop ?n) left ctx" by (simp add: rdp_loops_Suc)
  also have "\<dots> = rdp_binary_loop {TOK_BWAND} parse_additive_exp parse_and_exp_loop left ctx"
    by (rule rdp_binary_loop_cong [OF _ _ A(3)]) (simp_all add: E)
  finally show "parse_and_exp_loop left ctx =
     rdp_binary_loop {TOK_BWAND} parse_additive_exp parse_and_exp_loop left ctx" .
  have "parse_xor_exp_loop left ctx = rdp_xor_exp_loop (Suc ?n) left ctx" by (simp add: E)
  also have "\<dots> = rdp_binary_loop {TOK_BWXOR}
      (rdp_and_exp ?n) (rdp_xor_exp_loop ?n) left ctx" by (simp add: rdp_loops_Suc)
  also have "\<dots> = rdp_binary_loop {TOK_BWXOR} parse_and_exp parse_xor_exp_loop left ctx"
    by (rule rdp_binary_loop_cong [OF _ _ A(4)]) (simp_all add: E)
  finally show "parse_xor_exp_loop left ctx =
     rdp_binary_loop {TOK_BWXOR} parse_and_exp parse_xor_exp_loop left ctx" .
  have "parse_ior_exp_loop left ctx = rdp_ior_exp_loop (Suc ?n) left ctx" by (simp add: E)
  also have "\<dots> = rdp_binary_loop {TOK_BWOR}
      (rdp_xor_exp ?n) (rdp_ior_exp_loop ?n) left ctx" by (simp add: rdp_loops_Suc)
  also have "\<dots> = rdp_binary_loop {TOK_BWOR} parse_xor_exp parse_ior_exp_loop left ctx"
    by (rule rdp_binary_loop_cong [OF _ _ A(5)]) (simp_all add: E)
  finally show "parse_ior_exp_loop left ctx =
     rdp_binary_loop {TOK_BWOR} parse_xor_exp parse_ior_exp_loop left ctx" .
qed

section \<open>Every level folds to the left\<close>

text \<open>
  \<open>fold_left left ps\<close>: the tree that a loop builds from the tree \<open>left\<close> and the pairs
  \<open>ps\<close> of an operator and a right operand, combining the tree built so far with each
  pair in turn.
\<close>

definition fold_left :: "node_t \<Rightarrow> (token_type \<times> node_t) list \<Rightarrow> node_t" where
  "fold_left left ps = foldl (\<lambda>l (ident, right). ast_binary_operator ident l right) left ps"

text \<open>
  \<open>operand_pairs ops sub ctx ps ctx'\<close>: from \<open>ctx\<close> on, the tokens are the pairs \<open>ps\<close>, each
  an operator out of \<open>ops\<close> followed by an operand that the rule \<open>sub\<close> parses, and
  behind them and the whitespace that follows, at \<open>ctx'\<close>, a token that is no operator
  out of \<open>ops\<close>.
\<close>

fun operand_pairs ::
  "token_type set \<Rightarrow> (rdp_t \<Rightarrow> parsed) \<Rightarrow> rdp_t \<Rightarrow> (token_type \<times> node_t) list \<Rightarrow> rdp_t \<Rightarrow> bool" where
  "operand_pairs ops sub ctx [] ctx' =
     (case rdp_consume_blanks ctx of
        Inl e \<Rightarrow> False
      | Inr c1 \<Rightarrow>
          (case rdp_peek c1 of
             Inl e \<Rightarrow> False
           | Inr op \<Rightarrow> type op \<notin> ops \<and> ctx' = c1))"
| "operand_pairs ops sub ctx (p # ps) ctx' =
     (case rdp_consume_blanks ctx of
        Inl e \<Rightarrow> False
      | Inr c1 \<Rightarrow>
          (case rdp_peek c1 of
             Inl e \<Rightarrow> False
           | Inr op \<Rightarrow>
               type op \<in> ops \<and> type op = fst p \<and>
               (case sub (rdp_consume c1) of
                  Inl e \<Rightarrow> False
                | Inr (right, c2) \<Rightarrow> right = snd p \<and> operand_pairs ops sub c2 ps ctx')))"

lemma fold_left_Nil: "fold_left left [] = left"
  by (simp add: fold_left_def)

lemma fold_left_Cons:
  "fold_left left (p # ps) = fold_left (ast_binary_operator (fst p) left (snd p)) ps"
  by (simp add: fold_left_def split: prod.split)

lemma rdp_binary_loop_fold:
  assumes eq: "\<And>left c. loop left c = rdp_binary_loop ops sub loop left c"
  shows "operand_pairs ops sub ctx ps ctx' \<Longrightarrow> loop left ctx = Inr (fold_left left ps, ctx')"
proof (induction ps arbitrary: left ctx)
  case Nil
  then obtain c1 op where "rdp_consume_blanks ctx = Inr c1" "rdp_peek c1 = Inr op"
    "type op \<notin> ops" "ctx' = c1"
    by (auto split: sum.splits)
  then show ?case by (simp add: eq [of left ctx] rdp_binary_loop_def fold_left_Nil)
next
  case (Cons p ps)
  from Cons.prems obtain c1 op c2 where b: "rdp_consume_blanks ctx = Inr c1"
    and o: "rdp_peek c1 = Inr op" "type op \<in> ops" "type op = fst p"
    and s: "sub (rdp_consume c1) = Inr (snd p, c2)"
    and r: "operand_pairs ops sub c2 ps ctx'"
    by (auto split: sum.splits)
  from Cons.IH [OF r, of "ast_binary_operator (fst p) left (snd p)"] b o s show ?case
    by (simp add: eq [of left ctx] rdp_binary_loop_def fold_left_Cons)
qed

lemma rdp_binary_loop_pairs:
  assumes eq: "\<And>left c. loop left c = rdp_binary_loop ops sub loop left c"
    and a: "adv sub"
  shows "loop left ctx = Inr (t, ctx') \<Longrightarrow>
           \<exists>ps. operand_pairs ops sub ctx ps ctx' \<and> t = fold_left left ps"
proof (induction "rest ctx" arbitrary: left ctx rule: less_induct)
  case less
  from less.prems have r: "rdp_binary_loop ops sub loop left ctx = Inr (t, ctx')"
    by (simp add: eq [symmetric])
  then obtain c1 where b: "rdp_consume_blanks ctx = Inr c1"
    by (auto simp: rdp_binary_loop_def split: sum.splits)
  from r b obtain op where o: "rdp_peek c1 = Inr op"
    by (auto simp: rdp_binary_loop_def split: sum.splits)
  from rdp_consume_blanks_Inr [OF b] obtain k where
    k: "c1 = ctx\<lparr>position := k\<rparr>" "position ctx \<le> k" "k < length (tokens ctx)" by blast
  show ?case
  proof (cases "type op \<in> ops")
    case False
    with r b o have "t = left" "ctx' = c1" by (simp_all add: rdp_binary_loop_def)
    with b o False have "operand_pairs ops sub ctx [] ctx' \<and> t = fold_left left []"
      by (simp add: fold_left_Nil)
    then show ?thesis by blast
  next
    case True
    with r b o obtain right c2 where s: "sub (rdp_consume c1) = Inr (right, c2)"
      and l: "loop (ast_binary_operator (type op) left right) c2 = Inr (t, ctx')"
      by (auto simp: rdp_binary_loop_def split: sum.splits)
    from advD [OF a s] obtain k2 where
      k2: "c2 = (rdp_consume c1)\<lparr>position := k2\<rparr>" "position (rdp_consume c1) < k2"
        "k2 \<le> length (tokens (rdp_consume c1))" by blast
    have "rest c2 < rest ctx" using k k2 by (simp add: rest_def rdp_consume_def)
    from less.hyps [OF this l] obtain ps where
      ps: "operand_pairs ops sub c2 ps ctx'"
        "t = fold_left (ast_binary_operator (type op) left right) ps" by blast
    from b o True s ps
    have "operand_pairs ops sub ctx ((type op, right) # ps) ctx' \<and>
          t = fold_left left ((type op, right) # ps)"
      by (simp add: fold_left_Cons)
    then show ?thesis by blast
  qed
qed

lemma rdp_binary_exp_fold:
  assumes e: "\<And>c. entry c = rdp_binary_exp sub loop c"
    and eq: "\<And>left c. loop left c = rdp_binary_loop ops sub loop left c"
    and a: "adv sub"
  shows "entry ctx = Inr (t, ctx') \<longleftrightarrow>
           (\<exists>left c1 ps. sub ctx = Inr (left, c1) \<and> operand_pairs ops sub c1 ps ctx' \<and>
              t = fold_left left ps)"
proof
  assume "entry ctx = Inr (t, ctx')"
  then obtain left c1 where s: "sub ctx = Inr (left, c1)" and l: "loop left c1 = Inr (t, ctx')"
    by (auto simp: e rdp_binary_exp_def split: sum.splits)
  from rdp_binary_loop_pairs [OF eq a l] s
  show "\<exists>left c1 ps. sub ctx = Inr (left, c1) \<and> operand_pairs ops sub c1 ps ctx' \<and>
              t = fold_left left ps" by blast
next
  assume "\<exists>left c1 ps. sub ctx = Inr (left, c1) \<and> operand_pairs ops sub c1 ps ctx' \<and>
              t = fold_left left ps"
  then obtain left c1 ps where s: "sub ctx = Inr (left, c1)"
    and p: "operand_pairs ops sub c1 ps ctx'" and t: "t = fold_left left ps" by blast
  from rdp_binary_loop_fold [OF eq p, of left] s t show "entry ctx = Inr (t, ctx')"
    by (simp add: e rdp_binary_exp_def)
qed

lemma adv_parse:
  "adv parse_unary_exp" "adv parse_mult_exp" "adv parse_additive_exp" "adv parse_and_exp"
  "adv parse_xor_exp"
proof -
  have A: "adv (rdp_unary_exp n)" "adv (rdp_mult_exp n)"
    "adv (rdp_additive_exp n)" "adv (rdp_and_exp n)" "adv (rdp_xor_exp n)" for n
    using adv_all [of n] by (simp_all add: all_rules_def)
  show "adv parse_unary_exp" unfolding adv_def parse_unary_exp_def
    using A(1) [unfolded adv_def] by blast
  show "adv parse_mult_exp" unfolding adv_def parse_mult_exp_def
    using A(2) [unfolded adv_def] by blast
  show "adv parse_additive_exp" unfolding adv_def parse_additive_exp_def
    using A(3) [unfolded adv_def] by blast
  show "adv parse_and_exp" unfolding adv_def parse_and_exp_def
    using A(4) [unfolded adv_def] by blast
  show "adv parse_xor_exp" unfolding adv_def parse_xor_exp_def
    using A(5) [unfolded adv_def] by blast
qed

text \<open>
  Claim C2. Every one of the five binary rules is a fold to the left. A rule returns a
  tree exactly when the rule of the next level parses a first operand and the tokens
  behind it are pairs of an operator of the level and an operand of the next level, up
  to a token that is no operator of the level; the tree is then the first operand
  combined with the pairs from left to right. \<^verbatim>\<open>rdp_generate_ast\<close> is the rule of the
  lowest level, and the operands of the highest level are the numbers and the
  expressions in parentheses. The rules are the ones of the parser with any fuel from
  the fuel of \<^verbatim>\<open>rdp_generate_ast\<close> on. In particular the text \<^verbatim>\<open>1-2-3\<close> is parsed to
  \<open>Binary(minus, Binary(minus, Leaf 1, Leaf 2), Leaf 3)\<close>, and the texts with two
  operators of the other levels are parsed alike.
\<close>

theorem left_associative_fold:
  "(parse_mult_exp ctx = Inr (t, ctx') \<longleftrightarrow>
      (\<exists>left c1 ps. parse_unary_exp ctx = Inr (left, c1) \<and>
         operand_pairs {TOK_MULTIPLY, TOK_DIV, TOK_MOD} parse_unary_exp c1 ps ctx' \<and>
         t = fold_left left ps))
   \<and> (parse_additive_exp ctx = Inr (t, ctx') \<longleftrightarrow>
      (\<exists>left c1 ps. parse_mult_exp ctx = Inr (left, c1) \<and>
         operand_pairs {TOK_PLUS, TOK_MINUS} parse_mult_exp c1 ps ctx' \<and>
         t = fold_left left ps))
   \<and> (parse_and_exp ctx = Inr (t, ctx') \<longleftrightarrow>
      (\<exists>left c1 ps. parse_additive_exp ctx = Inr (left, c1) \<and>
         operand_pairs {TOK_BWAND} parse_additive_exp c1 ps ctx' \<and>
         t = fold_left left ps))
   \<and> (parse_xor_exp ctx = Inr (t, ctx') \<longleftrightarrow>
      (\<exists>left c1 ps. parse_and_exp ctx = Inr (left, c1) \<and>
         operand_pairs {TOK_BWXOR} parse_and_exp c1 ps ctx' \<and>
         t = fold_left left ps))
   \<and> (parse_ior_exp ctx = Inr (t, ctx') \<longleftrightarrow>
      (\<exists>left c1 ps. parse_xor_exp ctx = Inr (left, c1) \<and>
         operand_pairs {TOK_BWOR} parse_xor_exp c1 ps ctx' \<and>
         t = fold_left left ps))
   \<and> rdp_generate_ast ctx = parse_ior_exp ctx
   \<and> parse_unary_exp ctx = rdp_paren rdp_generate_ast ctx
   \<and> (\<forall>n. rdp_fuel ctx \<le> n \<longrightarrow>
         rdp_unary_exp n ctx = parse_unary_exp ctx \<and> rdp_mult_exp n ctx = parse_mult_exp ctx \<and>
         rdp_additive_exp n ctx = parse_additive_exp ctx \<and> rdp_and_exp n ctx = parse_and_exp ctx \<and>
         rdp_xor_exp n ctx = parse_xor_exp ctx \<and> rdp_ior_exp n ctx = parse_ior_exp ctx)
   \<and> fold_left left0 [(op1, right1), (op2, right2)] =
       Binary op2 (Binary op1 left0 right1) right2
   \<and> interpreter_line (zero_padded ''1-2-3'') =
       Root (Binary TOK_MINUS (Binary TOK_MINUS (Leaf 1) (Leaf 2)) (Leaf 3))
   \<and> interpreter_line (zero_padded ''1-2+3'') =
       Root (Binary TOK_PLUS (Binary TOK_MINUS (Leaf 1) (Leaf 2)) (Leaf 3))
   \<and> interpreter_line (zero_padded ''8/4/2'') =
       Root (Binary TOK_DIV (Binary TOK_DIV (Leaf 8) (Leaf 4)) (Leaf 2))
   \<and> interpreter_line (zero_padded ''8%5*2'') =
       Root (Binary TOK_MULTIPLY (Binary TOK_MOD (Leaf 8) (Leaf 5)) (Leaf 2))
   \<and> interpreter_line (zero_padded ''1&2&3'') =
       Root (Binary TOK_BWAND (Binary TOK_BWAND (Leaf 1) (Leaf 2)) (Leaf 3))
   \<and> interpreter_line (zero_padded ''1^2^3'') =
       Root (Binary TOK_BWXOR (Binary TOK_BWXOR (Leaf 1) (Leaf 2)) (Leaf 3))
   \<and> interpreter_line (zero_padded ''1|2|3'') =
       Root (Binary TOK_BWOR (Binary TOK_BWOR (Leaf 1) (Leaf 2)) (Leaf 3))"
proof -
  have u: "parse_unary_exp ctx = rdp_paren rdp_generate_ast ctx"
    by (simp only: parse_rules_unfold(2) parse_rules_unfold(1))
  have n: "\<forall>n. rdp_fuel ctx \<le> n \<longrightarrow>
         rdp_unary_exp n ctx = parse_unary_exp ctx \<and> rdp_mult_exp n ctx = parse_mult_exp ctx \<and>
         rdp_additive_exp n ctx = parse_additive_exp ctx \<and> rdp_and_exp n ctx = parse_and_exp ctx \<and>
         rdp_xor_exp n ctx = parse_xor_exp ctx \<and> rdp_ior_exp n ctx = parse_ior_exp ctx"
    by (simp add: rdp_rules_enough)
  have ex: "interpreter_line (zero_padded ''1-2-3'') =
       Root (Binary TOK_MINUS (Binary TOK_MINUS (Leaf 1) (Leaf 2)) (Leaf 3))
   \<and> interpreter_line (zero_padded ''1-2+3'') =
       Root (Binary TOK_PLUS (Binary TOK_MINUS (Leaf 1) (Leaf 2)) (Leaf 3))
   \<and> interpreter_line (zero_padded ''8/4/2'') =
       Root (Binary TOK_DIV (Binary TOK_DIV (Leaf 8) (Leaf 4)) (Leaf 2))
   \<and> interpreter_line (zero_padded ''8%5*2'') =
       Root (Binary TOK_MULTIPLY (Binary TOK_MOD (Leaf 8) (Leaf 5)) (Leaf 2))
   \<and> interpreter_line (zero_padded ''1&2&3'') =
       Root (Binary TOK_BWAND (Binary TOK_BWAND (Leaf 1) (Leaf 2)) (Leaf 3))
   \<and> interpreter_line (zero_padded ''1^2^3'') =
       Root (Binary TOK_BWXOR (Binary TOK_BWXOR (Leaf 1) (Leaf 2)) (Leaf 3))
   \<and> interpreter_line (zero_padded ''1|2|3'') =
       Root (Binary TOK_BWOR (Binary TOK_BWOR (Leaf 1) (Leaf 2)) (Leaf 3))"
    by code_simp
  have f: "fold_left left0 [(op1, right1), (op2, right2)] =
       Binary op2 (Binary op1 left0 right1) right2"
    by (simp add: fold_left_def ast_binary_operator_def)
  note 1 = rdp_binary_exp_fold [of parse_mult_exp, OF parse_rules_unfold(4)
      parse_loops_unfold(1) adv_parse(1), of ctx t ctx']
  note 2 = rdp_binary_exp_fold [of parse_additive_exp, OF parse_rules_unfold(5)
      parse_loops_unfold(2) adv_parse(2), of ctx t ctx']
  note 3 = rdp_binary_exp_fold [of parse_and_exp, OF parse_rules_unfold(6)
      parse_loops_unfold(3) adv_parse(3), of ctx t ctx']
  note 4 = rdp_binary_exp_fold [of parse_xor_exp, OF parse_rules_unfold(7)
      parse_loops_unfold(4) adv_parse(4), of ctx t ctx']
  note 5 = rdp_binary_exp_fold [of parse_ior_exp, OF parse_rules_unfold(8)
      parse_loops_unfold(5) adv_parse(5), of ctx t ctx']
  show ?thesis
    by (rule conjI [OF 1 conjI [OF 2 conjI [OF 3 conjI [OF 4 conjI [OF 5
          conjI [OF parse_rules_unfold(3) conjI [OF u conjI [OF n conjI [OF f ex]]]]]]]]])
qed

theorem left_associative_fold_witness:
  "parse_additive_exp
     (rdp_init [NUM ''1'', KW TOK_MINUS, NUM ''2'', KW TOK_MINUS, NUM ''3'',
                lex_mkspecial TOK_EOF] 6) =
     Inr (Binary TOK_MINUS (Binary TOK_MINUS (Leaf 1) (Leaf 2)) (Leaf 3),
          (rdp_init [NUM ''1'', KW TOK_MINUS, NUM ''2'', KW TOK_MINUS, NUM ''3'',
                     lex_mkspecial TOK_EOF] 6)\<lparr>position := 5\<rparr>)
   \<and> rdp_additive_exp 56
     (rdp_init [NUM ''1'', KW TOK_MINUS, NUM ''2'', KW TOK_MINUS, NUM ''3'',
                lex_mkspecial TOK_EOF] 6) =
     parse_additive_exp
     (rdp_init [NUM ''1'', KW TOK_MINUS, NUM ''2'', KW TOK_MINUS, NUM ''3'',
                lex_mkspecial TOK_EOF] 6)"
proof -
  let ?ctx = "rdp_init [NUM ''1'', KW TOK_MINUS, NUM ''2'', KW TOK_MINUS, NUM ''3'',
                lex_mkspecial TOK_EOF] 6"
  have fuel: "rdp_fuel ?ctx \<le> 56" by (simp add: rdp_fuel_def rdp_init_def)
  from left_associative_fold [of ?ctx] fuel
  have enough: "rdp_additive_exp 56 ?ctx = parse_additive_exp ?ctx" by blast
  have s: "parse_mult_exp ?ctx = Inr (Leaf 1, ?ctx\<lparr>position := 1\<rparr>)" by code_simp
  have p: "operand_pairs {TOK_PLUS, TOK_MINUS} parse_mult_exp (?ctx\<lparr>position := 1\<rparr>)
             [(TOK_MINUS, Leaf 2), (TOK_MINUS, Leaf 3)] (?ctx\<lparr>position := 5\<rparr>)"
    by code_simp
  have f: "Binary TOK_MINUS (Binary TOK_MINUS (Leaf 1) (Leaf 2)) (Leaf 3) =
      fold_left (Leaf 1) [(TOK_MINUS, Leaf 2), (TOK_MINUS, Leaf 3)]"
    by (simp add: fold_left_def ast_binary_operator_def)
  from left_associative_fold [of ?ctx
      "Binary TOK_MINUS (Binary TOK_MINUS (Leaf 1) (Leaf 2)) (Leaf 3)" "?ctx\<lparr>position := 5\<rparr>"]
  have "parse_additive_exp ?ctx =
          Inr (Binary TOK_MINUS (Binary TOK_MINUS (Leaf 1) (Leaf 2)) (Leaf 3),
               ?ctx\<lparr>position := 5\<rparr>) \<longleftrightarrow>
        (\<exists>left c1 ps. parse_mult_exp ?ctx = Inr (left, c1) \<and>
           operand_pairs {TOK_PLUS, TOK_MINUS} parse_mult_exp c1 ps (?ctx\<lparr>position := 5\<rparr>) \<and>
           Binary TOK_MINUS (Binary TOK_MINUS (Leaf 1) (Leaf 2)) (Leaf 3) = fold_left left ps)"
    by (rule conjunct1 [OF conjunct2])
  moreover from s p f have "\<exists>left c1 ps. parse_mult_exp ?ctx = Inr (left, c1) \<and>
           operand_pairs {TOK_PLUS, TOK_MINUS} parse_mult_exp c1 ps (?ctx\<lparr>position := 5\<rparr>) \<and>
           Binary TOK_MINUS (Binary TOK_MINUS (Leaf 1) (Leaf 2)) (Leaf 3) = fold_left left ps"
    by blast
  ultimately have "parse_additive_exp ?ctx =
          Inr (Binary TOK_MINUS (Binary TOK_MINUS (Leaf 1) (Leaf 2)) (Leaf 3),
               ?ctx\<lparr>position := 5\<rparr>)" by (rule iffD2)
  with enough show ?thesis by (rule conjI [rotated])
qed

end
